theory Spec2Isabelle
  imports Complex_Main "HOL-Library.Product_Lexorder" "HOL-Library.Multiset"
    "HOL-Library.AList" "HOL-Library.Word"
begin

section \<open>The shared data model (types.ts)\<close>

text \<open>
  A JavaScript \<open>number\<close> that holds a time, a duration or a loudness is modelled as a
  \<^typ>\<open>real\<close>. The grid of the quantizer is \<open>0.25\<close>, a power of two, so the division
  by the grid, \<open>Math.round\<close> and the multiplication by the grid are exact on every
  finite double; the model and the code agree there (overflow to \<open>Infinity\<close> and
  \<open>NaN\<close> are outside the model). A MIDI pitch is a natural number. The optional
  fields of a \<open>Note\<close> are options; \<open>velocity\<close> is an option as well, since
  \<open>normalizeNote\<close> reads it through \<open>??\<close>.
\<close>

record Note =
  pitch :: nat
  time :: real
  duration :: real
  velocity :: "real option"
  fingering :: "string option"
  dynamic :: "string option"
  slurStart :: "bool option"
  slurEnd :: "bool option"

record Track =
  instrument :: string
  notes' :: "Note list"
  volume :: real

record Composition =
  title :: string
  subtitle :: "string option"
  composer :: string
  style :: string
  tempo :: nat
  tracks :: "Track list"
  abcNotation :: string

section \<open>Quantizer and grand-staff splitter (App.tsx, lines 1215--1292)\<close>

definition PITCH_SPLIT :: nat where
  "PITCH_SPLIT = 60"

definition TIME_GRID :: real where
  "TIME_GRID = 0.25"

text \<open>\<open>Math.round\<close>: the nearest integer, a tie going towards plus infinity.\<close>

definition jsRound :: "real \<Rightarrow> int" where
  "jsRound x = \<lfloor>x + 1 / 2\<rfloor>"

definition clamp :: "real \<Rightarrow> real \<Rightarrow> real \<Rightarrow> real" where
  "clamp v lo hi = min hi (max lo v)"

definition quantizeGrid :: "real \<Rightarrow> real \<Rightarrow> real" where
  "quantizeGrid v grid = of_int (jsRound (v / grid)) * grid"

text \<open>\<open>quantize(value)\<close> with the default grid.\<close>

definition quantize :: "real \<Rightarrow> real" where
  "quantize v = quantizeGrid v TIME_GRID"

definition normalizeNote :: "Note \<Rightarrow> Note" where
  "normalizeNote n =
     n\<lparr> time := max 0 (quantize (time n)),
        duration := max TIME_GRID (quantize (duration n)),
        velocity := Some (clamp (case velocity n of None \<Rightarrow> 0.7 | Some v \<Rightarrow> v) 0.05 1) \<rparr>"

text \<open>
  \<open>Array.prototype.sort\<close> is stable; with the comparator
  \<open>(a.time - b.time) || (a.pitch - b.pitch)\<close> it is the stable sort on the key
  \<open>(time, pitch)\<close> in lexicographic order.
\<close>

definition noteKey :: "Note \<Rightarrow> real \<times> nat" where
  "noteKey n = (time n, pitch n)"

definition sortNotes :: "Note list \<Rightarrow> Note list" where
  "sortNotes ns = sort_key noteKey ns"

text \<open>\<open>tracks[0]?.instrument || 'Piano'\<close>\<close>

definition firstInstrument :: "Track list \<Rightarrow> string" where
  "firstInstrument ts =
     (case ts of [] \<Rightarrow> ''Piano''
      | t # _ \<Rightarrow> (if instrument t = [] then ''Piano'' else instrument t))"

definition allNotes :: "Track list \<Rightarrow> Note list" where
  "allNotes ts = concat (map notes' ts)"

text \<open>
  The \<open>forEach\<close> of \<open>splitToGrandStaff\<close> pushes each normalized note to one of
  the two arrays; the state is the pair \<open>(rhNotes, lhNotes)\<close>.
\<close>

fun splitLoop :: "Note list \<Rightarrow> Note list \<times> Note list \<Rightarrow> Note list \<times> Note list" where
  "splitLoop [] (rh, lh) = (rh, lh)"
| "splitLoop (n # ns) (rh, lh) =
     (let normalized = normalizeNote n
      in if pitch normalized < PITCH_SPLIT
         then splitLoop ns (rh, lh @ [normalized])
         else splitLoop ns (rh @ [normalized], lh))"

record GrandStaff =
  rh :: Track
  lh :: Track

definition splitToGrandStaff :: "Track list \<Rightarrow> GrandStaff" where
  "splitToGrandStaff ts =
     (let (rhNotes, lhNotes) = splitLoop (allNotes ts) ([], [])
      in \<lparr> rh = \<lparr> instrument = firstInstrument ts, notes' = sortNotes rhNotes, volume = 0.8 \<rparr>,
           lh = \<lparr> instrument = firstInstrument ts, notes' = sortNotes lhNotes, volume = 0.8 \<rparr> \<rparr>)"

definition sameInstrument :: "Track list \<Rightarrow> bool" where
  "sameInstrument ts = list_all (\<lambda>t. instrument t = instrument (hd ts)) ts"

definition normalizeComposition :: "Composition \<Rightarrow> Composition" where
  "normalizeComposition c =
     (if length (tracks c) = 0 then c\<lparr> tracks := [] \<rparr>
      else if length (tracks c) > 2 \<and> \<not> sameInstrument (tracks c) then c
      else c\<lparr> tracks := [rh (splitToGrandStaff (tracks c)), lh (splitToGrandStaff (tracks c))] \<rparr>)"

section \<open>The splitter of the Score-XML encoder (musicXmlService.ts, lines 19--30)\<close>

text \<open>This splitter does not normalize: the notes are partitioned as they are.\<close>

fun xmlSplitLoop :: "Note list \<Rightarrow> Note list \<times> Note list \<Rightarrow> Note list \<times> Note list" where
  "xmlSplitLoop [] (rh', lh') = (rh', lh')"
| "xmlSplitLoop (n # ns) (rh', lh') =
     (if pitch n < PITCH_SPLIT
      then xmlSplitLoop ns (rh', lh' @ [n])
      else xmlSplitLoop ns (rh' @ [n], lh'))"

definition xmlSplitToGrandStaff :: "Track list \<Rightarrow> Note list \<times> Note list" where
  "xmlSplitToGrandStaff ts =
     (let (rh', lh') = xmlSplitLoop (allNotes ts) ([], [])
      in (sortNotes rh', sortNotes lh'))"

section \<open>Numbers as text\<close>

text \<open>
  Template literals print whole numbers in decimal. Text is a \<^typ>\<open>string\<close>, except
  where a string is read code unit by code unit (the hash of the tempo).
\<close>

definition nl :: string where
  "nl = [CHR 0x0A]"

text \<open>The decimal digits of a natural number: a template literal of an integer.\<close>

function decimal :: "nat \<Rightarrow> string" where
  "decimal n = (if n < 10 then [char_of (48 + n)] else decimal (n div 10) @ [char_of (48 + n mod 10)])"
  by pat_completeness auto
termination
  by (relation "measure (\<lambda>n. n)") auto

declare decimal.simps [simp del]

text \<open>A whole number that may be negative, as a template literal prints it.\<close>

definition decimalInt :: "int \<Rightarrow> string" where
  "decimalInt i = (if i < 0 then ''-'' @ decimal (nat (- i)) else decimal (nat i))"

section \<open>The measure-filling walk shared by both encoders\<close>

text \<open>
  \<open>renderMeasure\<close> exists twice, in \<open>syncAbcNotation\<close> (App.tsx, lines 1749--1769) and
  in musicXmlService.ts (lines 47--72). Both run the same loop over a
  \<open>Map<number, Note[]>\<close> and append one piece of text per iteration. The piece is modelled
  as a token: the notes found at the cursor together with the length that the cursor
  advances by, or a rest with its length; \<open>abcTokenText\<close> and \<open>xmlTokenText\<close> below
  turn a token into the text appended. The two copies differ in the field that holds
  a note's length in ticks and in the clamp that the XML copy applies to a rest; these
  are the parameters \<open>durOf\<close> and \<open>restLen\<close>. The loop has no bound of its own, so it is
  a partial function: \<open>None\<close> stands for a loop that never leaves.

  The \<open>Map\<close> is an association list in insertion order: \<open>byTime.get\<close> is
  \<^const>\<open>map_of\<close>, \<open>byTime.set\<close> is \<^const>\<open>AList.update\<close>.
\<close>

datatype 'n token = Chord "'n list" nat | Rest nat

type_synonym 'n timeMap = "(nat \<times> 'n list) list"

text \<open>\<open>byTime.get(cursor)\<close>, with a missing key read as the empty array.\<close>

definition notesAt :: "'n timeMap \<Rightarrow> nat \<Rightarrow> 'n list" where
  "notesAt byTime cursor = (case map_of byTime cursor of None \<Rightarrow> [] | Some l \<Rightarrow> l)"

text \<open>\<open>Math.max(...notesAtTime.map(durOf))\<close> on a non-empty array.\<close>

definition maxDuration :: "('n \<Rightarrow> nat) \<Rightarrow> 'n list \<Rightarrow> nat" where
  "maxDuration durOf ns = Max (set (map durOf ns))"

text \<open>\<open>(allTimes.find(t => t > cursor && t < measureEnd) ?? measureEnd) - cursor\<close>\<close>

definition gapTo :: "nat list \<Rightarrow> nat \<Rightarrow> nat \<Rightarrow> nat" where
  "gapTo allTimes cursor measureEnd =
     (case find (\<lambda>t. t > cursor \<and> t < measureEnd) allTimes of
        None \<Rightarrow> measureEnd | Some t \<Rightarrow> t) - cursor"

partial_function (option) measureLoop ::
  "('n \<Rightarrow> nat) \<Rightarrow> (nat \<Rightarrow> nat) \<Rightarrow> 'n timeMap \<Rightarrow> nat list \<Rightarrow> nat \<Rightarrow> nat
     \<Rightarrow> 'n token list \<Rightarrow> 'n token list option"
where
  "measureLoop durOf restLen byTime allTimes measureEnd cursor output =
     (if cursor < measureEnd then
        (if notesAt byTime cursor \<noteq> [] then
           measureLoop durOf restLen byTime allTimes measureEnd
             (cursor + maxDuration durOf (notesAt byTime cursor))
             (output @ [Chord (notesAt byTime cursor) (maxDuration durOf (notesAt byTime cursor))])
         else
           measureLoop durOf restLen byTime allTimes measureEnd
             (cursor + restLen (gapTo allTimes cursor measureEnd))
             (output @ [Rest (restLen (gapTo allTimes cursor measureEnd))]))
      else Some output)"

declare measureLoop.simps [code]

section \<open>Notation-Text encoder (App.tsx, \<open>syncAbcNotation\<close>, lines 1700--1811)\<close>

record TimedNote = Note +
  timeTicks :: nat
  durationTicks :: nat

definition beatsPerMeasure :: nat where "beatsPerMeasure = 4"
definition ticksPerBeat :: nat where "ticksPerBeat = 4"
definition ticksPerMeasure :: nat where "ticksPerMeasure = beatsPerMeasure * ticksPerBeat"
definition barsPerLine :: nat where "barsPerLine = 4"
definition linesPerPage :: nat where "linesPerPage = 8"

definition toTicksTime :: "real \<Rightarrow> nat" where
  "toTicksTime v = nat (max 0 (jsRound (v / TIME_GRID)))"

definition toTicksDuration :: "real \<Rightarrow> nat" where
  "toTicksDuration v = nat (max 1 (jsRound (v / TIME_GRID)))"

text \<open>\<open>{ ...n, timeTicks, durationTicks }\<close>\<close>

definition timed :: "Note \<Rightarrow> TimedNote" where
  "timed n = Note.extend n
     (TimedNote.fields (toTicksTime (time n)) (toTicksDuration (duration n)))"

fun buildTimeMapLoop :: "Note list \<Rightarrow> TimedNote timeMap \<Rightarrow> TimedNote timeMap" where
  "buildTimeMapLoop [] byTime = byTime"
| "buildTimeMapLoop (n # ns) byTime =
     buildTimeMapLoop ns
       (AList.update (toTicksTime (time n)) (notesAt byTime (toTicksTime (time n)) @ [timed n]) byTime)"

text \<open>The pair \<open>{ byTime, allTimes }\<close>; \<open>allTimes\<close> is the sorted list of the keys.\<close>

definition buildTimeMap :: "Note list \<Rightarrow> TimedNote timeMap \<times> nat list" where
  "buildTimeMap ns =
     (let byTime = buildTimeMapLoop ns []
      in (byTime, sort (map fst byTime)))"

definition abcRenderMeasure ::
  "TimedNote timeMap \<Rightarrow> nat list \<Rightarrow> nat \<Rightarrow> TimedNote token list option" where
  "abcRenderMeasure byTime allTimes measureIndex =
     measureLoop durationTicks (\<lambda>gap. gap) byTime allTimes
       ((measureIndex + 1) * ticksPerMeasure) (measureIndex * ticksPerMeasure) []"

text \<open>
  The text that one iteration appends. \<open>midiToAbc\<close> (App.tsx, lines 1346--1364) spells
  a pitch; \<open>lengthFromTicks\<close> prints a length in eighths, a tick being half an eighth.
\<close>

definition noteNames :: "string list" where
  "noteNames = [''C'', ''^C'', ''D'', ''^D'', ''E'', ''F'', ''^F'', ''G'', ''^G'', ''A'', ''^A'', ''B'']"

text \<open>\<open>toLowerCase\<close> on a note letter.\<close>

definition lowerLetter :: "char \<Rightarrow> char" where
  "lowerLetter c =
     (if of_char c \<ge> (65::nat) \<and> of_char c \<le> (90::nat) then char_of (of_char c + (32::nat)) else c)"

definition midiToAbc :: "nat \<Rightarrow> string" where
  "midiToAbc midi' =
     (let octave = int (midi' div 12) - 1;
          noteName = noteNames ! (midi' mod 12);
          isSharp = (take 1 noteName = ''^'');
          baseNote = (if isSharp then drop 1 noteName else noteName);
          prefix' = (if isSharp then ''^'' else [])
      in if octave = 4 then prefix' @ baseNote
         else if octave = 5 then prefix' @ map lowerLetter baseNote
         else if octave \<ge> 6 then prefix' @ map lowerLetter baseNote @ replicate (nat (octave - 5)) (CHR 0x27)
         else if octave = 3 then prefix' @ baseNote @ '',''
         else if octave = 2 then prefix' @ baseNote @ '',,''
         else prefix' @ baseNote @ '',,,'')"

definition lengthFromTicks :: "nat \<Rightarrow> string" where
  "lengthFromTicks ticks =
     (if ticks = 2 then []
      else if ticks = 1 then ''/2''
      else if even ticks then decimal (ticks div 2)
      else decimal ticks @ ''/2'')"

definition abcTokenText :: "TimedNote token \<Rightarrow> string" where
  "abcTokenText tok =
     (case tok of
        Chord notesAtTime durationTicks' \<Rightarrow>
          (let chord = concat (map (\<lambda>n. midiToAbc (pitch n)) notesAtTime);
               noteText = (if length notesAtTime > 1 then ''['' @ chord @ '']'' else chord)
           in noteText @ lengthFromTicks durationTicks' @ '' '')
      | Rest gap \<Rightarrow> ''z'' @ lengthFromTicks gap @ '' '')"

text \<open>The string that \<open>renderMeasure\<close> returns.\<close>

definition abcMeasureText :: "TimedNote timeMap \<Rightarrow> nat list \<Rightarrow> nat \<Rightarrow> string option" where
  "abcMeasureText byTime allTimes measureIndex =
     map_option (\<lambda>toks. concat (map abcTokenText toks)) (abcRenderMeasure byTime allTimes measureIndex)"

text \<open>
  \<open>renderMeasure(rhMap.byTime, rhMap.allTimes, m)\<close> for the map built from a voice.
\<close>

definition abcVoiceMeasure :: "Note list \<Rightarrow> nat \<Rightarrow> TimedNote token list option" where
  "abcVoiceMeasure ns m = abcRenderMeasure (fst (buildTimeMap ns)) (snd (buildTimeMap ns)) m"

text \<open>
  \<open>rhNotes\<close> and \<open>lhNotes\<close>: the split voices, sorted once more by \<open>time\<close> alone.
\<close>

definition abcRhNotes :: "Composition \<Rightarrow> Note list" where
  "abcRhNotes c = sort_key time (notes' (rh (splitToGrandStaff (tracks c))))"

definition abcLhNotes :: "Composition \<Rightarrow> Note list" where
  "abcLhNotes c = sort_key time (notes' (lh (splitToGrandStaff (tracks c))))"

definition abcEndTick :: "Note \<Rightarrow> nat" where
  "abcEndTick n = toTicksTime (time n) + toTicksDuration (duration n)"

definition maxOrZero :: "nat list \<Rightarrow> nat" where
  "maxOrZero xs = (if xs \<noteq> [] then Max (set xs) else 0)"

definition globalMaxTick :: "Composition \<Rightarrow> nat" where
  "globalMaxTick c =
     max (max (maxOrZero (map abcEndTick (abcRhNotes c))) (maxOrZero (map abcEndTick (abcLhNotes c))))
       ticksPerMeasure"

definition minMeasures :: nat where
  "minMeasures = linesPerPage * barsPerLine"

definition abcTotalMeasures :: "Composition \<Rightarrow> nat" where
  "abcTotalMeasures c =
     max minMeasures (nat \<lceil>real (globalMaxTick c) / real ticksPerMeasure\<rceil>)"

section \<open>Score-XML encoder (musicXmlService.ts)\<close>

definition DIVISIONS :: nat where "DIVISIONS = 8"
definition BEATS_PER_MEASURE :: nat where "BEATS_PER_MEASURE = 4"
definition TICKS_PER_MEASURE :: nat where "TICKS_PER_MEASURE = DIVISIONS * BEATS_PER_MEASURE"

definition toTicks :: "real \<Rightarrow> nat" where
  "toTicks beats = nat (max 0 (jsRound (beats * real DIVISIONS)))"

text \<open>
  \<open>{ ...n, duration: durationTicks }\<close>: the copy stored in the map keeps the tick count
  in its \<open>duration\<close> field; \<open>xmlDuration\<close> reads it back as the integer it is.
\<close>

definition xmlTimed :: "Note \<Rightarrow> Note" where
  "xmlTimed n = n\<lparr> duration := real (max 1 (toTicks (duration n))) \<rparr>"

definition xmlDuration :: "Note \<Rightarrow> nat" where
  "xmlDuration n = nat \<lfloor>duration n\<rfloor>"

fun buildMeasureMapLoop :: "Note list \<Rightarrow> Note timeMap \<Rightarrow> Note timeMap" where
  "buildMeasureMapLoop [] byTime = byTime"
| "buildMeasureMapLoop (n # ns) byTime =
     buildMeasureMapLoop ns
       (AList.update (toTicks (time n)) (notesAt byTime (toTicks (time n)) @ [xmlTimed n]) byTime)"

definition buildMeasureMap :: "Note list \<Rightarrow> Note timeMap \<times> nat list" where
  "buildMeasureMap ns =
     (let byTime = buildMeasureMapLoop ns []
      in (byTime, sort (map fst byTime)))"

text \<open>\<open>clamp(gap, 1, TICKS_PER_MEASURE)\<close> on tick counts.\<close>

definition xmlRestLen :: "nat \<Rightarrow> nat" where
  "xmlRestLen gap = min TICKS_PER_MEASURE (max 1 gap)"

definition xmlRenderMeasure ::
  "Note timeMap \<Rightarrow> nat list \<Rightarrow> nat \<Rightarrow> Note token list option" where
  "xmlRenderMeasure byTime allTimes measureIndex =
     measureLoop xmlDuration xmlRestLen byTime allTimes
       ((measureIndex + 1) * TICKS_PER_MEASURE) (measureIndex * TICKS_PER_MEASURE) []"

text \<open>
  The text that one iteration appends: one \<open><note>\<close> element per note of a chord, all
  with the length of the token, or one rest. \<open>midiToPitch\<close> is lines 10--17.
\<close>

definition steps :: "string list" where
  "steps = [''C'', ''C'', ''D'', ''D'', ''E'', ''F'', ''F'', ''G'', ''G'', ''A'', ''A'', ''B'']"

definition alters :: "nat list" where
  "alters = [0, 1, 0, 1, 0, 0, 1, 0, 1, 0, 1, 0]"

definition midiToPitch :: "nat \<Rightarrow> string \<times> nat \<times> int" where
  "midiToPitch midi' = (steps ! (midi' mod 12), alters ! (midi' mod 12), int (midi' div 12) - 1)"

definition xmlNoteText :: "nat \<Rightarrow> nat \<Rightarrow> nat \<Rightarrow> Note \<Rightarrow> string" where
  "xmlNoteText staff durationTicks' idx n =
     (case midiToPitch (pitch n) of (step, alter, octave) \<Rightarrow>
        ''<note>'' @ (if idx > 0 then ''<chord/>'' else []) @ ''<pitch><step>'' @ step @ ''</step>''
        @ (if alter \<noteq> 0 then ''<alter>'' @ decimal alter @ ''</alter>'' else [])
        @ ''<octave>'' @ decimalInt octave @ ''</octave></pitch><duration>'' @ decimal durationTicks'
        @ ''</duration><voice>1</voice><staff>'' @ decimal staff @ ''</staff></note>'')"

definition xmlTokenText :: "nat \<Rightarrow> Note token \<Rightarrow> string" where
  "xmlTokenText staff tok =
     (case tok of
        Chord notesAtTime durationTicks' \<Rightarrow>
          concat (map (\<lambda>(idx, n). xmlNoteText staff durationTicks' idx n) (enumerate 0 notesAtTime))
      | Rest duration' \<Rightarrow>
          ''<note><rest/><duration>'' @ decimal duration' @ ''</duration><voice>1</voice><staff>''
          @ decimal staff @ ''</staff></note>'')"

definition xmlMeasureText :: "Note timeMap \<Rightarrow> nat list \<Rightarrow> nat \<Rightarrow> nat \<Rightarrow> string option" where
  "xmlMeasureText byTime allTimes measureIndex staff =
     map_option (\<lambda>toks. concat (map (xmlTokenText staff) toks))
       (xmlRenderMeasure byTime allTimes measureIndex)"

definition xmlVoiceMeasure :: "Note list \<Rightarrow> nat \<Rightarrow> Note token list option" where
  "xmlVoiceMeasure ns m = xmlRenderMeasure (fst (buildMeasureMap ns)) (snd (buildMeasureMap ns)) m"

definition xmlRhNotes :: "Composition \<Rightarrow> Note list" where
  "xmlRhNotes c = fst (xmlSplitToGrandStaff (tracks c))"

definition xmlLhNotes :: "Composition \<Rightarrow> Note list" where
  "xmlLhNotes c = snd (xmlSplitToGrandStaff (tracks c))"

definition xmlEndTick :: "Note \<Rightarrow> nat" where
  "xmlEndTick n = toTicks (time n) + toTicks (duration n)"

definition maxTick :: "Composition \<Rightarrow> nat" where
  "maxTick c =
     max (max (maxOrZero (map xmlEndTick (xmlRhNotes c))) (maxOrZero (map xmlEndTick (xmlLhNotes c))))
       TICKS_PER_MEASURE"

definition xmlTotalMeasures :: "Composition \<Rightarrow> nat" where
  "xmlTotalMeasures c = max 1 (nat \<lceil>real (maxTick c) / real TICKS_PER_MEASURE\<rceil>)"

section \<open>Tempo from the style (App.tsx, lines 1224--1244)\<close>

text \<open>
  A JavaScript string is a sequence of UTF-16 code units; \<open>charCodeAt\<close> reads one.
  The hash is kept in 32 bits by \<open>hash |= 0\<close> after every step: \<open>hash << 5\<close> is a
  32-bit shift, the subtraction and the addition are exact on numbers of this size, and
  \<open>|= 0\<close> takes the result modulo \<open>2^32\<close> as a signed value. On a 32-bit word this is
  shift, subtract and add. \<open>Math.abs\<close> then reads the word as a signed integer.
\<close>

type_synonym jsString = "16 word list"

definition hashStep :: "32 word \<Rightarrow> 16 word \<Rightarrow> 32 word" where
  "hashStep hash c = (push_bit 5 hash - hash) + ucast c"

definition hashString :: "jsString \<Rightarrow> nat" where
  "hashString v = nat \<bar>sint (fold (\<lambda>c hash. hashStep hash c) v 0)\<bar>"

text \<open>\<open>String.prototype.includes\<close>\<close>

fun includes' :: "jsString \<Rightarrow> jsString \<Rightarrow> bool" where
  "includes' [] pat = (pat = [])"
| "includes' (x # xs) pat = (take (length pat) (x # xs) = pat \<or> includes' xs pat)"

text \<open>The code units of an ASCII literal of the source.\<close>

definition ascii :: "string \<Rightarrow> jsString" where
  "ascii s = map (\<lambda>c. of_nat (of_char c)) s"

definition styleRange :: "jsString \<Rightarrow> nat \<times> nat" where
  "styleRange key =
     (if includes' key (ascii ''bach'') \<or> includes' key (ascii ''baroque'') then (72, 96)
      else if includes' key (ascii ''chopin'') \<or> includes' key (ascii ''romantic'') then (60, 84)
      else if includes' key (ascii ''jazz'') then (90, 120)
      else (84, 120))"

text \<open>
  \<open>toLowerCase\<close> is a built-in whose Unicode tables are not part of the repository; it
  is the parameter \<open>lower\<close>. The title is optional; \<open>title || ""\<close> reads a missing
  title as the empty string.
\<close>

definition tempoFromStyle :: "(jsString \<Rightarrow> jsString) \<Rightarrow> jsString \<Rightarrow> jsString option \<Rightarrow> nat" where
  "tempoFromStyle lower style' title' =
     (let key = lower style';
          seed = key @ ascii ''|'' @ (case title' of None \<Rightarrow> [] | Some t \<Rightarrow> t);
          h = hashString seed;
          (min', max') = styleRange key
      in min' + (h mod (max' - min' + 1)))"

section \<open>Notes from a pitch track (audioImport.ts, lines 39--63)\<close>

text \<open>
  The numbers of this loop are doubles, and a double is a real number. The literal
  \<open>0.12\<close> denotes the double nearest to \<open>12/100\<close>, which is \<open>1080863910568919 / 2^53\<close>
  and lies below \<open>12/100\<close>; the literal \<open>0.8\<close> denotes \<open>3602879701896397 / 2^52\<close>.
\<close>

definition MIN_NOTE_SECONDS :: real where
  "MIN_NOTE_SECONDS = 1080863910568919 / 2 ^ 53"

text \<open>One entry of \<open>pitches\<close>: \<open>{ time, midi }\<close>, \<open>midi\<close> being \<open>null\<close> for silence.\<close>

record PitchFrame =
  atTime :: real
  midi :: "nat option"

text \<open>
  The state of the loop is \<open>(notes, currentMidi, startTime)\<close>. Nothing follows the
  loop but \<open>return notes\<close>. The difference \<open>time - startTime\<close> is a subtraction of
  doubles, whose result is the double nearest to the difference and not the difference
  itself: it is the parameter \<open>sub\<close>, and \<open>duration\<close> is what it returns. The
  comparison \<open>duration >= MIN_NOTE_SECONDS\<close> of two doubles is the order of the reals.
\<close>

fun pitchLoop ::
  "(real \<Rightarrow> real \<Rightarrow> real) \<Rightarrow> PitchFrame list \<Rightarrow> Note list \<times> nat option \<times> real
     \<Rightarrow> Note list \<times> nat option \<times> real" where
  "pitchLoop sub [] st = st"
| "pitchLoop sub (f # fs) (ns, currentMidi, startTime) =
     (if midi f = currentMidi then pitchLoop sub fs (ns, currentMidi, startTime)
      else pitchLoop sub fs
        ((case currentMidi of
            None \<Rightarrow> ns
          | Some p \<Rightarrow>
              if MIN_NOTE_SECONDS \<le> sub (atTime f) startTime
              then ns @ [\<lparr> pitch = p, time = startTime, duration = sub (atTime f) startTime,
                          velocity = Some (3602879701896397 / 2 ^ 52), fingering = None,
                          dynamic = None, slurStart = None, slurEnd = None \<rparr>]
              else ns),
         midi f, atTime f))"

definition buildNotesFromPitchTrack :: "(real \<Rightarrow> real \<Rightarrow> real) \<Rightarrow> PitchFrame list \<Rightarrow> Note list" where
  "buildNotesFromPitchTrack sub pitches = fst (pitchLoop sub pitches ([], None, 0))"

section \<open>Document assembler (\<open>makePdfBlobFromJpegs\<close> in the sheet-music component)\<close>

text \<open>
  A byte is a \<^typ>\<open>char\<close>, which has eight bits; a \<open>Uint8Array\<close> is a list of them.
  Every text that \<open>writeAscii\<close> receives in this function is made of literals of
  the source, whose code units are below 256, and of decimal numbers; it is a
  \<^typ>\<open>string\<close>, and \<open>charCodeAt(i) & 0xff\<close> is the character itself. Pixel
  sizes are natural numbers here: the caller rounds them and floors them at 1.
\<close>

record PageData =
  bytes :: "char list"
  width :: nat
  height :: nat

text \<open>
  The variables that the closures share: \<open>chunks\<close>, \<open>byteLength\<close> and the sparse
  array \<open>offsets\<close>, a partial map from object ids.
\<close>

record PdfWriter =
  chunks :: "char list list"
  byteLength :: nat
  offsets :: "nat \<rightharpoonup> nat"

text \<open>
  \<open>((px * 72) / 96).toFixed(2)\<close> for a whole number of pixels: three quarters of it,
  which a double holds exactly, printed with two decimals.
\<close>

definition ptFixed :: "nat \<Rightarrow> string" where
  "ptFixed px =
     decimal (px * 72 div 96) @ ''.''
       @ [char_of (48 + (px * 72 mod 96) * 100 div 96 div 10),
          char_of (48 + (px * 72 mod 96) * 100 div 96 mod 10)]"

text \<open>\<open>s.padStart(10, '0')\<close>\<close>

definition padStart10 :: "string \<Rightarrow> string" where
  "padStart10 s = replicate (10 - length s) (CHR ''0'') @ s"

text \<open>\<open>xs.join(' ')\<close>\<close>

fun joinSpace :: "string list \<Rightarrow> string" where
  "joinSpace [] = []"
| "joinSpace [x] = x"
| "joinSpace (x # y # ys) = x @ '' '' @ joinSpace (y # ys)"

definition writeBytes :: "char list \<Rightarrow> PdfWriter \<Rightarrow> PdfWriter" where
  "writeBytes bs st = st\<lparr> chunks := chunks st @ [bs], byteLength := byteLength st + length bs \<rparr>"

definition writeAscii :: "string \<Rightarrow> PdfWriter \<Rightarrow> PdfWriter" where
  "writeAscii text' st = writeBytes text' st"

definition beginObject :: "nat \<Rightarrow> PdfWriter \<Rightarrow> PdfWriter" where
  "beginObject id' st =
     writeAscii (decimal id' @ '' 0 obj'' @ nl) (st\<lparr> offsets := (offsets st)(id' \<mapsto> byteLength st) \<rparr>)"

definition endObject :: "PdfWriter \<Rightarrow> PdfWriter" where
  "endObject st = writeAscii (''endobj'' @ nl) st"

definition pageObjectStart :: nat where
  "pageObjectStart = 3"

definition totalObjects :: "PageData list \<Rightarrow> nat" where
  "totalObjects pagesData = 2 + length pagesData * 3"

text \<open>The body of \<open>pagesData.forEach((page, i) => ...)\<close>.\<close>

definition writePage :: "nat \<Rightarrow> PageData \<Rightarrow> PdfWriter \<Rightarrow> PdfWriter" where
  "writePage i page st =
     (let pageObj = pageObjectStart + i * 3;
          contentObj = pageObj + 1;
          imageObj = pageObj + 2;
          content = ''q'' @ nl @ ptFixed (width page) @ '' 0 0 '' @ ptFixed (height page)
                    @ '' 0 0 cm'' @ nl @ ''/Im'' @ decimal (i + 1) @ '' Do'' @ nl @ ''Q'' @ nl;
          st1 = beginObject pageObj st;
          st2 = writeAscii
                  (''<< /Type /Page /Parent 2 0 R /MediaBox [0 0 '' @ ptFixed (width page) @ '' ''
                   @ ptFixed (height page) @ ''] /Resources << /XObject << /Im'' @ decimal (i + 1)
                   @ '' '' @ decimal imageObj @ '' 0 R >> >> /Contents '' @ decimal contentObj
                   @ '' 0 R >>'' @ nl) st1;
          st3 = endObject st2;
          st4 = beginObject contentObj st3;
          st5 = writeAscii
                  (''<< /Length '' @ decimal (length content) @ '' >>'' @ nl @ ''stream'' @ nl
                   @ content @ ''endstream'' @ nl) st4;
          st6 = endObject st5;
          st7 = beginObject imageObj st6;
          st8 = writeAscii
                  (''<< /Type /XObject /Subtype /Image /Width '' @ decimal (width page)
                   @ '' /Height '' @ decimal (height page)
                   @ '' /ColorSpace /DeviceRGB /BitsPerComponent 8 /Filter /DCTDecode /Length ''
                   @ decimal (length (bytes page)) @ '' >>'' @ nl @ ''stream'' @ nl) st7;
          st9 = writeBytes (bytes page) st8;
          st10 = writeAscii (nl @ ''endstream'' @ nl) st9
      in endObject st10)"

fun writePages :: "nat \<Rightarrow> PageData list \<Rightarrow> PdfWriter \<Rightarrow> PdfWriter" where
  "writePages i [] st = st"
| "writePages i (page # pagesData) st = writePages (i + 1) pagesData (writePage i page st)"

text \<open>\<open>offsets[i] || 0\<close>, padded, as one line of the cross-reference table.\<close>

definition xrefEntry :: "(nat \<rightharpoonup> nat) \<Rightarrow> nat \<Rightarrow> string" where
  "xrefEntry offs i =
     padStart10 (decimal (case offs i of None \<Rightarrow> 0 | Some off \<Rightarrow> off)) @ '' 00000 n '' @ nl"

text \<open>\<open>for (let i = 1; i <= totalObjects; i++)\<close>, counted by the objects left.\<close>

fun writeXrefEntries :: "nat \<Rightarrow> nat \<Rightarrow> PdfWriter \<Rightarrow> PdfWriter" where
  "writeXrefEntries i 0 st = st"
| "writeXrefEntries i (Suc left) st =
     writeXrefEntries (i + 1) left (writeAscii (xrefEntry (offsets st) i) st)"

text \<open>Everything up to the cross-reference table: header, catalog, page tree, pages.\<close>

definition writeBody :: "PageData list \<Rightarrow> PdfWriter" where
  "writeBody pagesData =
     (let st0 = \<lparr> chunks = [], byteLength = 0, offsets = Map.empty \<rparr>;
          st1 = writeAscii (''%PDF-1.4'' @ nl @ [CHR ''%'', CHR 0xE2, CHR 0xE3, CHR 0xCF, CHR 0xD3] @ nl) st0;
          st2 = endObject (writeAscii (''<< /Type /Catalog /Pages 2 0 R >>'' @ nl) (beginObject 1 st1));
          kids = joinSpace (map (\<lambda>i. decimal (pageObjectStart + i * 3) @ '' 0 R'') [0..<length pagesData]);
          st3 = endObject (writeAscii
                  (''<< /Type /Pages /Count '' @ decimal (length pagesData) @ '' /Kids ['' @ kids
                   @ ''] >>'' @ nl) (beginObject 2 st2))
      in writePages 0 pagesData st3)"

definition writeXref :: "PageData list \<Rightarrow> PdfWriter \<Rightarrow> PdfWriter" where
  "writeXref pagesData st =
     (let xrefOffset = byteLength st;
          st1 = writeAscii (''xref'' @ nl @ ''0 '' @ decimal (totalObjects pagesData + 1) @ nl) st;
          st2 = writeAscii (''0000000000 65535 f '' @ nl) st1;
          st3 = writeXrefEntries 1 (totalObjects pagesData) st2
      in writeAscii
           (''trailer'' @ nl @ ''<< /Size '' @ decimal (totalObjects pagesData + 1) @ '' /Root 1 0 R >>''
            @ nl @ ''startxref'' @ nl @ decimal xrefOffset @ nl @ ''%%EOF'') st3)"

text \<open>\<open>new Blob(chunks)\<close>: the chunks one after the other.\<close>

definition makePdfBlobFromJpegs :: "PageData list \<Rightarrow> char list" where
  "makePdfBlobFromJpegs pagesData = concat (chunks (writeXref pagesData (writeBody pagesData)))"

section \<open>Notions of the specification, and sample inputs\<close>

text \<open>
  The definitions of this section are not code of the repository. They name what the
  specification talks about, so that the theorems can be stated, and they fix the small
  inputs at which the theorems are evaluated.
\<close>

text \<open>The two voices, before sorting.\<close>

definition upperNotes :: "Track list \<Rightarrow> Note list" where
  "upperNotes ts = filter (\<lambda>n. \<not> pitch n < PITCH_SPLIT) (map normalizeNote (allNotes ts))"

definition lowerNotes :: "Track list \<Rightarrow> Note list" where
  "lowerNotes ts = filter (\<lambda>n. pitch n < PITCH_SPLIT) (map normalizeNote (allNotes ts))"


text \<open>
  The grid as the specification words it, \<open>1/16\<close> beat, and the normalization of a time
  and of a duration on that grid.
\<close>

definition specGrid :: real where
  "specGrid = 1 / 16"

definition specNormalTime :: "real \<Rightarrow> real" where
  "specNormalTime t = max 0 (of_int (jsRound (t / specGrid)) * specGrid)"

definition specNormalDuration :: "real \<Rightarrow> real" where
  "specNormalDuration d = max specGrid (of_int (jsRound (d / specGrid)) * specGrid)"

text \<open>The number of distinct instrument labels of a track list.\<close>

definition distinctInstruments :: "Track list \<Rightarrow> nat" where
  "distinctInstruments ts = length (remdups (map instrument ts))"

definition mkNote :: "nat \<Rightarrow> real \<Rightarrow> real \<Rightarrow> Note" where
  "mkNote p t d = \<lparr> pitch = p, time = t, duration = d, velocity = Some 0.8,
     fingering = None, dynamic = None, slurStart = None, slurEnd = None \<rparr>"

definition mkTrack :: "string \<Rightarrow> Note list \<Rightarrow> Track" where
  "mkTrack i ns = \<lparr> instrument = i, notes' = ns, volume = 0.8 \<rparr>"

definition mkComposition :: "Track list \<Rightarrow> Composition" where
  "mkComposition ts = \<lparr> title = ''Etude'', subtitle = None, composer = ''Anon'',
     style = ''bach'', tempo = 100, tracks = ts, abcNotation = [] \<rparr>"

definition sampleTracks :: "Track list" where
  "sampleTracks =
     [mkTrack ''Piano'' [mkNote 72 1 1, mkNote 48 0 2],
      mkTrack ''Piano'' [mkNote 60 (3 / 10) (1 / 10)]]"

definition trioTracks :: "Track list" where
  "trioTracks =
     [mkTrack ''Piano'' [mkNote 72 0 1], mkTrack ''Piano'' [mkNote 48 0 1],
      mkTrack ''Violin'' [mkNote 76 1 1]]"

subsection \<open>Notions for the encoders\<close>

text \<open>
  The tokens that the walk appends from a cursor on, as a relation: the loop of
  \<^const>\<open>measureLoop\<close>, one rule per branch.
\<close>

inductive walks :: "('n \<Rightarrow> nat) \<Rightarrow> 'n timeMap \<Rightarrow> nat list \<Rightarrow> nat \<Rightarrow> nat \<Rightarrow> 'n token list \<Rightarrow> bool"
  for durOf :: "'n \<Rightarrow> nat" and byTime :: "'n timeMap" and allTimes :: "nat list" and measureEnd :: nat
where
  walks_done: "\<not> cursor < measureEnd \<Longrightarrow> walks durOf byTime allTimes measureEnd cursor []"
| walks_chord: "cursor < measureEnd \<Longrightarrow> notesAt byTime cursor \<noteq> [] \<Longrightarrow>
     walks durOf byTime allTimes measureEnd (cursor + maxDuration durOf (notesAt byTime cursor)) res \<Longrightarrow>
     walks durOf byTime allTimes measureEnd cursor
       (Chord (notesAt byTime cursor) (maxDuration durOf (notesAt byTime cursor)) # res)"
| walks_rest: "cursor < measureEnd \<Longrightarrow> notesAt byTime cursor = [] \<Longrightarrow>
     walks durOf byTime allTimes measureEnd (cursor + gapTo allTimes cursor measureEnd) res \<Longrightarrow>
     walks durOf byTime allTimes measureEnd cursor (Rest (gapTo allTimes cursor measureEnd) # res)"

text \<open>A map whose chords all advance the cursor.\<close>

definition positive :: "('n \<Rightarrow> nat) \<Rightarrow> 'n timeMap \<Rightarrow> bool" where
  "positive durOf byTime = (\<forall>t. notesAt byTime t \<noteq> [] \<longrightarrow> 1 \<le> maxDuration durOf (notesAt byTime t))"

text \<open>
  The length of a token, and the tokens of a measure paired with the tick at which
  each begins: the cursor of the loop when the token was appended.
\<close>

fun tokenLen :: "'n token \<Rightarrow> nat" where
  "tokenLen (Chord ns d) = d"
| "tokenLen (Rest d) = d"

fun timeline :: "nat \<Rightarrow> 'n token list \<Rightarrow> (nat \<times> 'n token) list" where
  "timeline c [] = []"
| "timeline c (t # ts) = (c, t) # timeline (c + tokenLen t) ts"

text \<open>
  A rest of length \<open>g\<close> at tick \<open>p\<close> fills the gap up to the next tick of the measure
  at which a note begins, or up to the end \<open>e\<close> of the measure when there is none:
  it is not empty, it stays within the measure, no note begins strictly inside it,
  and it ends at the end of the measure or where a note begins.
\<close>

definition restFills :: "(nat \<Rightarrow> bool) \<Rightarrow> nat \<Rightarrow> nat \<Rightarrow> nat \<Rightarrow> bool" where
  "restFills begins e p g =
     (1 \<le> g \<and> p + g \<le> e \<and> list_all (\<lambda>s. \<not> begins s) [Suc p..<p + g]
      \<and> (p + g = e \<or> begins (p + g)))"

text \<open>
  A token at tick \<open>p\<close> fits the voice, \<open>onset t\<close> being the notes that begin at tick
  \<open>t\<close>: a chord token holds all the notes that begin at \<open>p\<close>, in their order, and is
  as long as the longest; a rest stands only where no note begins, and fills the gap.
\<close>

definition tokenFits ::
  "('n \<Rightarrow> nat) \<Rightarrow> (nat \<Rightarrow> 'n list) \<Rightarrow> nat \<Rightarrow> nat \<Rightarrow> 'n token \<Rightarrow> bool" where
  "tokenFits durOf onset e p tok =
     (case tok of
        Chord ns d \<Rightarrow> ns = onset p \<and> ns \<noteq> [] \<and> d = maxDuration durOf ns
      | Rest g \<Rightarrow> onset p = [] \<and> restFills (\<lambda>s. onset s \<noteq> []) e p g)"

text \<open>
  A chord token begun before tick \<open>t\<close> still sounds at \<open>t\<close>: \<open>t\<close> lies strictly inside
  it.
\<close>

definition sounding :: "nat \<Rightarrow> (nat \<times> 'n token) list \<Rightarrow> bool" where
  "sounding t line =
     list_ex (\<lambda>(p, tok). case tok of Chord ns d \<Rightarrow> p < t \<and> t < p + d | Rest g \<Rightarrow> False) line"

text \<open>The notes of a voice that begin at a tick, as each encoder stores them.\<close>

definition abcOnset :: "Note list \<Rightarrow> nat \<Rightarrow> TimedNote list" where
  "abcOnset ns t = map timed (filter (\<lambda>n. toTicksTime (time n) = t) ns)"

definition xmlOnset :: "Note list \<Rightarrow> nat \<Rightarrow> Note list" where
  "xmlOnset ns t = map xmlTimed (filter (\<lambda>n. toTicks (time n) = t) ns)"

text \<open>
  What a measure sounds like, free of the encoder's tick: for each token the pitches
  of its notes (\<open>None\<close> for a rest) and its length in beats; then the same with the
  beat at which each token begins, measure \<open>m\<close> beginning at beat \<open>4 * m\<close>.
\<close>

definition spans :: "nat \<Rightarrow> ('a Note_scheme) token list \<Rightarrow> (nat list option \<times> real) list" where
  "spans tpb toks =
     map (\<lambda>tok. case tok of Chord ns d \<Rightarrow> (Some (map pitch ns), real d / real tpb)
                | Rest d \<Rightarrow> (None, real d / real tpb)) toks"

fun placed :: "real \<Rightarrow> ('k \<times> real) list \<Rightarrow> (real \<times> 'k \<times> real) list" where
  "placed b [] = []"
| "placed b ((k, l) # r) = (b, k, l) # placed (b + l) r"

definition events ::
  "nat \<Rightarrow> nat \<Rightarrow> ('a Note_scheme) token list \<Rightarrow> (real \<times> nat list option \<times> real) list" where
  "events tpb m toks = placed (real (4 * m)) (spans tpb toks)"

text \<open>A note that normalization leaves where it is: time and duration on the grid.\<close>

definition quantized :: "Note \<Rightarrow> bool" where
  "quantized n = (time n = max 0 (quantize (time n))
     \<and> duration n = max TIME_GRID (quantize (duration n)))"

text \<open>
  The notes that a voice's measures hold, all measures in order: the members of the
  chord tokens.
\<close>

definition chordMembers :: "'n token list option \<Rightarrow> 'n list" where
  "chordMembers r =
     (case r of None \<Rightarrow> []
      | Some toks \<Rightarrow> concat (map (\<lambda>tok. case tok of Chord ns d \<Rightarrow> ns | Rest d \<Rightarrow> []) toks))"

definition abcEmitted :: "Note list \<Rightarrow> nat \<Rightarrow> TimedNote list" where
  "abcEmitted ns totalMeasures =
     concat (map (\<lambda>m. chordMembers (abcVoiceMeasure ns m)) [0..<totalMeasures])"

definition xmlEmitted :: "Note list \<Rightarrow> nat \<Rightarrow> Note list" where
  "xmlEmitted ns totalMeasures =
     concat (map (\<lambda>m. chordMembers (xmlVoiceMeasure ns m)) [0..<totalMeasures])"

text \<open>No note of the voice begins strictly inside another note of the voice.\<close>

definition noOverlap :: "Note list \<Rightarrow> bool" where
  "noOverlap ns =
     list_all (\<lambda>a. list_all (\<lambda>b. \<not> (time a < time b \<and> time b < time a + duration a)) ns) ns"

definition chordComposition :: Composition where
  "chordComposition =
     mkComposition [mkTrack ''Piano'' [mkNote 60 0 1, mkNote 64 0 2, mkNote 48 2 1]]"

definition chordVoice :: "Note list" where
  "chordVoice = [mkNote 60 0 1, mkNote 64 0 2]"

definition lateChordVoice :: "Note list" where
  "lateChordVoice = [mkNote 60 1 1, mkNote 64 1 2]"

definition offGridComposition :: Composition where
  "offGridComposition = mkComposition [mkTrack ''Piano'' [mkNote 60 (1 / 8) 1]]"

definition overlapComposition :: Composition where
  "overlapComposition = mkComposition [mkTrack ''Piano'' [mkNote 60 0 2, mkNote 64 1 1]]"

definition hiddenChordVoice :: "Note list" where
  "hiddenChordVoice = [mkNote 60 0 2, mkNote 64 1 1, mkNote 67 1 (1 / 2)]"

definition scaleComposition :: Composition where
  "scaleComposition =
     mkComposition [mkTrack ''Piano'' [mkNote 60 0 1, mkNote 64 1 1, mkNote 48 0 2]]"

subsection \<open>Notions for the tempo, the pitch track and the document\<close>

text \<open>
  The lower-casing of the letters \<open>A\<close> to \<open>Z\<close>, which is what \<open>toLowerCase\<close> does
  to an ASCII string; the sample styles are lowered with it.
\<close>

definition asciiLower :: "jsString \<Rightarrow> jsString" where
  "asciiLower s = map (\<lambda>c. if 65 \<le> c \<and> c \<le> 90 then c + 32 else c) s"

text \<open>
  The note that the loop appends when a segment of pitch \<open>p\<close>, begun at
  \<open>startTime\<close>, is closed and the subtraction has returned \<open>d\<close>.
\<close>

definition closedNote :: "nat \<Rightarrow> real \<Rightarrow> real \<Rightarrow> Note" where
  "closedNote p startTime d = \<lparr> pitch = p, time = startTime, duration = d,
     velocity = Some (3602879701896397 / 2 ^ 52), fingering = None, dynamic = None,
     slurStart = None, slurEnd = None \<rparr>"

text \<open>
  The subtraction of doubles whose difference is a double again, where nothing is
  rounded: so it is with the sample times below, all multiples of \<open>1/8\<close> below 1.
\<close>

definition exactSub :: "real \<Rightarrow> real \<Rightarrow> real" where
  "exactSub a b = a - b"

definition mkFrame :: "real \<Rightarrow> nat option \<Rightarrow> PitchFrame" where
  "mkFrame t m = \<lparr> atTime = t, midi = m \<rparr>"

definition heldTone :: "PitchFrame list" where
  "heldTone = [mkFrame 0 (Some 60), mkFrame (1 / 8) (Some 60), mkFrame (2 / 8) None]"

definition lastTone :: "PitchFrame list" where
  "lastTone = [mkFrame (3 / 8) (Some 69), mkFrame (4 / 8) (Some 69), mkFrame (5 / 8) (Some 69)]"

text \<open>
  The marker that opens object \<open>k\<close>, and the fact that it stands at byte \<open>off\<close> of a
  byte stream.
\<close>

definition marker :: "nat \<Rightarrow> string" where
  "marker k = decimal k @ '' 0 obj'' @ nl"

definition markerAt :: "char list \<Rightarrow> nat \<Rightarrow> nat \<Rightarrow> bool" where
  "markerAt out k off = (take (length (marker k)) (drop off out) = marker k)"

text \<open>
  The invariant of the writer: \<open>byteLength\<close> is the number of bytes written, and every
  recorded offset is the place of its object's marker in them.
\<close>

definition wellIndexed :: "PdfWriter \<Rightarrow> bool" where
  "wellIndexed st =
     (byteLength st = length (concat (chunks st))
      \<and> (\<forall>k off. offsets st k = Some off \<longrightarrow> markerAt (concat (chunks st)) k off))"

text \<open>
  The lines of the cross-reference table that \<open>writeXref\<close> writes: the free entry of
  object zero, then one line per object id from 1 up.
\<close>

definition xrefTable :: "PageData list \<Rightarrow> string list" where
  "xrefTable pagesData =
     (''0000000000 65535 f '' @ nl)
       # map (xrefEntry (offsets (writeBody pagesData))) [1..<totalObjects pagesData + 1]"

definition tinyPage :: PageData where
  "tinyPage = \<lparr> bytes = ''J'', width = 4, height = 8 \<rparr>"

section \<open>Quantizer and splitter: proofs\<close>

lemma jsRound_of_int: "jsRound (of_int k) = k"
  unfolding jsRound_def by linarith

lemma quantize_of_int: "quantize (of_int k * TIME_GRID) = of_int k * TIME_GRID"
  by (simp add: quantize_def quantizeGrid_def TIME_GRID_def jsRound_of_int)

lemma quantize_idem: "quantize (quantize x) = quantize x"
  unfolding quantize_def[of x] quantizeGrid_def by (rule quantize_of_int)

lemma quantize_max0: "quantize (max 0 (quantize x)) = max 0 (quantize x)"
proof (cases "0 \<le> quantize x")
  case True then show ?thesis by (simp add: max_def quantize_idem)
next
  case False
  have "quantize 0 = 0" using quantize_of_int[of 0] by simp
  with False show ?thesis by (simp add: max_def)
qed

lemma quantize_maxgrid: "quantize (max TIME_GRID (quantize x)) = max TIME_GRID (quantize x)"
proof (cases "TIME_GRID \<le> quantize x")
  case True then show ?thesis by (simp add: max_def quantize_idem)
next
  case False
  have "quantize TIME_GRID = TIME_GRID" using quantize_of_int[of 1] by simp
  with False show ?thesis by (simp add: max_def)
qed

lemma clamp_idem: "lo \<le> hi \<Longrightarrow> clamp (clamp v lo hi) lo hi = clamp v lo hi"
  by (simp add: clamp_def min_def max_def)

lemma normalizeNote_idem: "normalizeNote (normalizeNote n) = normalizeNote n"
  by (simp add: normalizeNote_def quantize_max0 quantize_maxgrid clamp_idem)

lemma pitch_normalizeNote: "pitch (normalizeNote n) = pitch n"
  by (simp add: normalizeNote_def)

lemma splitLoop_eq:
  "splitLoop ns (r, l) =
     (r @ filter (\<lambda>n. \<not> pitch n < PITCH_SPLIT) (map normalizeNote ns),
      l @ filter (\<lambda>n. pitch n < PITCH_SPLIT) (map normalizeNote ns))"
  by (induction ns arbitrary: r l) (simp_all add: Let_def)

lemma xmlSplitLoop_eq:
  "xmlSplitLoop ns (r, l) =
     (r @ filter (\<lambda>n. \<not> pitch n < PITCH_SPLIT) ns,
      l @ filter (\<lambda>n. pitch n < PITCH_SPLIT) ns)"
  by (induction ns arbitrary: r l) simp_all

lemma split_rh: "notes' (rh (splitToGrandStaff ts)) = sortNotes (upperNotes ts)"
  by (simp add: splitToGrandStaff_def splitLoop_eq upperNotes_def)
lemma split_lh: "notes' (lh (splitToGrandStaff ts)) = sortNotes (lowerNotes ts)"
  by (simp add: splitToGrandStaff_def splitLoop_eq lowerNotes_def)
lemma split_rh_rec: "rh (splitToGrandStaff ts) = \<lparr> instrument = firstInstrument ts, notes' = sortNotes (upperNotes ts), volume = 0.8 \<rparr>"
  by (simp add: splitToGrandStaff_def splitLoop_eq upperNotes_def)
lemma split_lh_rec: "lh (splitToGrandStaff ts) = \<lparr> instrument = firstInstrument ts, notes' = sortNotes (lowerNotes ts), volume = 0.8 \<rparr>"
  by (simp add: splitToGrandStaff_def splitLoop_eq lowerNotes_def)

lemma set_sortNotes: "set (sortNotes ns) = set ns"
  by (simp add: sortNotes_def)

lemma sortNotes_idem: "sortNotes (sortNotes ns) = sortNotes ns"
  by (simp add: sortNotes_def sort_key_id_if_sorted)

lemma map_normalize_fixed: "\<forall>n\<in>set ns. normalizeNote n = n \<Longrightarrow> map normalizeNote ns = ns"
  by (induction ns) simp_all

lemma upper_resplit:
  "upperNotes [rh (splitToGrandStaff ts), lh (splitToGrandStaff ts)] = sortNotes (upperNotes ts)"
proof -
  have fx: "map normalizeNote (sortNotes (upperNotes ts) @ sortNotes (lowerNotes ts))
        = sortNotes (upperNotes ts) @ sortNotes (lowerNotes ts)"
    by (rule map_normalize_fixed)
       (auto simp: set_sortNotes upperNotes_def lowerNotes_def normalizeNote_idem)
  have a: "filter (\<lambda>n. \<not> pitch n < PITCH_SPLIT) (sortNotes (upperNotes ts)) = sortNotes (upperNotes ts)"
    by (rule filter_True) (auto simp: set_sortNotes upperNotes_def)
  have b: "filter (\<lambda>n. \<not> pitch n < PITCH_SPLIT) (sortNotes (lowerNotes ts)) = []"
    by (rule filter_False) (auto simp: set_sortNotes lowerNotes_def)
  show ?thesis
    unfolding upperNotes_def[of "[_, _]"] allNotes_def
    using fx a b by (simp add: split_rh split_lh)
qed

lemma lower_resplit:
  "lowerNotes [rh (splitToGrandStaff ts), lh (splitToGrandStaff ts)] = sortNotes (lowerNotes ts)"
proof -
  have fx: "map normalizeNote (sortNotes (upperNotes ts) @ sortNotes (lowerNotes ts))
        = sortNotes (upperNotes ts) @ sortNotes (lowerNotes ts)"
    by (rule map_normalize_fixed)
       (auto simp: set_sortNotes upperNotes_def lowerNotes_def normalizeNote_idem)
  have a: "filter (\<lambda>n. pitch n < PITCH_SPLIT) (sortNotes (lowerNotes ts)) = sortNotes (lowerNotes ts)"
    by (rule filter_True) (auto simp: set_sortNotes lowerNotes_def)
  have b: "filter (\<lambda>n. pitch n < PITCH_SPLIT) (sortNotes (upperNotes ts)) = []"
    by (rule filter_False) (auto simp: set_sortNotes upperNotes_def)
  show ?thesis
    unfolding lowerNotes_def[of "[_, _]"] allNotes_def
    using fx a b by (simp add: split_rh split_lh)
qed

lemma firstInstrument_resplit:
  "firstInstrument [rh (splitToGrandStaff ts), lh (splitToGrandStaff ts)] = firstInstrument ts"
  by (simp add: firstInstrument_def split_rh_rec split: list.splits)

lemma splitToGrandStaff_idem:
  "splitToGrandStaff [rh (splitToGrandStaff ts), lh (splitToGrandStaff ts)] = splitToGrandStaff ts"
  (is "splitToGrandStaff ?ts' = _")
proof -
  have "rh (splitToGrandStaff ?ts') = rh (splitToGrandStaff ts)"
    unfolding split_rh_rec[of ?ts'] upper_resplit firstInstrument_resplit sortNotes_idem
    by (simp add: split_rh_rec)
  moreover have "lh (splitToGrandStaff ?ts') = lh (splitToGrandStaff ts)"
    unfolding split_lh_rec[of ?ts'] lower_resplit firstInstrument_resplit sortNotes_idem
    by (simp add: split_lh_rec)
  ultimately show ?thesis by (simp add: GrandStaff.equality)
qed

text \<open>
  Claim C5. Normalizing a composition twice is normalizing it once, quantizing a
  value twice is quantizing it once, and so for the normalization of a note and for
  the split of the two tracks that a split returned. The second application of
  \<open>normalizeComposition\<close> meets two tracks of one instrument whose notes are
  normalized, split by pitch and sorted; normalizing, splitting and the stable sort
  leave them as they are.
\<close>

theorem normalize_idempotent:
  "normalizeComposition (normalizeComposition c) = normalizeComposition c
   \<and> quantize (quantize x) = quantize x
   \<and> normalizeNote (normalizeNote n) = normalizeNote n
   \<and> splitToGrandStaff [rh (splitToGrandStaff ts), lh (splitToGrandStaff ts)]
       = splitToGrandStaff ts"
proof (intro conjI)
  show "quantize (quantize x) = quantize x" by (rule quantize_idem)
  show "normalizeNote (normalizeNote n) = normalizeNote n" by (rule normalizeNote_idem)
  show "splitToGrandStaff [rh (splitToGrandStaff ts), lh (splitToGrandStaff ts)]
       = splitToGrandStaff ts"
    by (rule splitToGrandStaff_idem)
  show "normalizeComposition (normalizeComposition c) = normalizeComposition c"
  proof (cases "length (tracks c) = 0")
    case True then show ?thesis by (simp add: normalizeComposition_def)
  next
    case ne: False
    show ?thesis
    proof (cases "length (tracks c) > 2 \<and> \<not> sameInstrument (tracks c)")
      case True then show ?thesis using ne by (simp add: normalizeComposition_def)
    next
      case False
      have 1: "normalizeComposition c = c\<lparr> tracks := [rh (splitToGrandStaff (tracks c)), lh (splitToGrandStaff (tracks c))] \<rparr>"
        using ne False by (auto simp add: normalizeComposition_def)
      show ?thesis unfolding 1
        by (simp add: normalizeComposition_def splitToGrandStaff_idem)
    qed
  qed
qed

lemma jsRound_near: "\<bar>of_int (jsRound y) - y\<bar> \<le> 1 / 2"
  unfolding jsRound_def by linarith

lemma quantize_near: "\<bar>quantize x - x\<bar> \<le> 1 / 8"
proof -
  have "\<bar>of_int (jsRound (x * 4)) - x * 4\<bar> \<le> 1 / 2" by (rule jsRound_near)
  then have "\<bar>of_int (jsRound (x * 4)) / 4 - x\<bar> \<le> 1 / 8" by linarith
  then show ?thesis by (simp add: quantize_def quantizeGrid_def TIME_GRID_def)
qed

lemma max0_quantize_nat: "\<exists>k::nat. max 0 (quantize x) = of_nat k / 4"
proof (cases "0 \<le> jsRound (x / TIME_GRID)")
  case True
  then have "max 0 (quantize x) = of_nat (nat (jsRound (x / TIME_GRID))) / 4"
    by (simp add: quantize_def quantizeGrid_def TIME_GRID_def max_def)
  then show ?thesis by blast
next
  case False
  then have "quantize x \<le> 0" by (simp add: quantize_def quantizeGrid_def TIME_GRID_def mult_le_0_iff)
  then have "max 0 (quantize x) = of_nat 0 / 4" by simp
  then show ?thesis by blast
qed

lemma maxgrid_quantize_nat: "\<exists>k::nat. 1 \<le> k \<and> max TIME_GRID (quantize x) = of_nat k / 4"
proof (cases "1 \<le> jsRound (x / TIME_GRID)")
  case True
  then have "max TIME_GRID (quantize x) = of_nat (nat (jsRound (x / TIME_GRID))) / 4"
    by (simp add: quantize_def quantizeGrid_def TIME_GRID_def max_def)
  with True show ?thesis by (intro exI[of _ "nat (jsRound (x / TIME_GRID))"]) simp
next
  case False
  then have "jsRound (x / TIME_GRID) \<le> 0" by simp
  then have "real_of_int (jsRound (x / TIME_GRID)) \<le> 0" by simp
  then have "quantize x \<le> 0" by (simp add: quantize_def quantizeGrid_def TIME_GRID_def mult_le_0_iff)
  then have "max TIME_GRID (quantize x) = of_nat 1 / 4" by (simp add: TIME_GRID_def max_def)
  then show ?thesis by (intro exI[of _ 1]) simp
qed

text \<open>
  Claim C2, amended. \<open>TIME_GRID\<close> is \<open>0.25\<close> beat (a sixteenth note), not
  \<open>1/16\<close> beat. The normalized time is \<open>round(time / 0.25) * 0.25\<close> floored at
  \<open>0\<close>, the normalized duration is \<open>round(duration / 0.25) * 0.25\<close> floored at
  \<open>0.25\<close>; the quantized value is a nearest grid point (at most half a grid unit
  away); both results are whole multiples of \<open>1/4\<close> beat, hence of \<open>1/16\<close> beat
  too.
\<close>

theorem normalizeNote_quarter_grid:
  "time (normalizeNote n) = max 0 (of_int (jsRound (time n / (1 / 4))) * (1 / 4))
   \<and> duration (normalizeNote n) = max (1 / 4) (of_int (jsRound (duration n / (1 / 4))) * (1 / 4))
   \<and> \<bar>quantize x - x\<bar> \<le> 1 / 8
   \<and> (\<exists>k::nat. time (normalizeNote n) = of_nat k / 4)
   \<and> (\<exists>k::nat. 1 \<le> k \<and> duration (normalizeNote n) = of_nat k / 4)
   \<and> (\<exists>k::nat. time (normalizeNote n) = of_nat k / 16)
   \<and> (\<exists>k::nat. 1 \<le> k \<and> duration (normalizeNote n) = of_nat k / 16)"
proof -
  obtain k where k: "time (normalizeNote n) = of_nat k / 4"
    using max0_quantize_nat[of "time n"] by (auto simp: normalizeNote_def)
  obtain j where j: "1 \<le> j" "duration (normalizeNote n) = of_nat j / 4"
    using maxgrid_quantize_nat[of "duration n"] by (auto simp: normalizeNote_def)
  have k16: "time (normalizeNote n) = of_nat (4 * k) / 16" using k by simp
  have j16: "1 \<le> 4 * j \<and> duration (normalizeNote n) = of_nat (4 * j) / 16" using j by simp
  have a: "time (normalizeNote n) = max 0 (of_int (jsRound (time n / (1 / 4))) * (1 / 4))"
    by (simp add: normalizeNote_def quantize_def quantizeGrid_def TIME_GRID_def)
  have b: "duration (normalizeNote n) = max (1 / 4) (of_int (jsRound (duration n / (1 / 4))) * (1 / 4))"
    by (simp add: normalizeNote_def quantize_def quantizeGrid_def TIME_GRID_def)
  show ?thesis using a b quantize_near k j k16 j16 by blast
qed

text \<open>The theorem at a note with time \<open>0.3\<close> and duration \<open>0.1\<close>.\<close>

theorem normalizeNote_quarter_grid_witness:
  "time (normalizeNote (mkNote 60 (3 / 10) (1 / 10))) = 1 / 4
   \<and> duration (normalizeNote (mkNote 60 (3 / 10) (1 / 10))) = 1 / 4"
  using normalizeNote_quarter_grid [of "mkNote 60 (3 / 10) (1 / 10)" 0]
  by (simp add: mkNote_def jsRound_def)

text \<open>
  Claim C2 as stated fails: a time and a duration of \<open>1/16\<close> beat are on the grid of
  the specification and would stay, but the code moves them to \<open>0\<close> and to \<open>1/4\<close>.
\<close>

theorem normalizeNote_sixteenth_counterexample:
  "time (normalizeNote (mkNote 60 (1 / 16) (1 / 16))) \<noteq> specNormalTime (1 / 16)
   \<and> duration (normalizeNote (mkNote 60 (1 / 16) (1 / 16))) \<noteq> specNormalDuration (1 / 16)"
  by (simp add: normalizeNote_def mkNote_def quantize_def quantizeGrid_def TIME_GRID_def
      jsRound_def specNormalTime_def specNormalDuration_def specGrid_def)




lemma xml_split_rh: "fst (xmlSplitToGrandStaff ts) = sortNotes (filter (\<lambda>n. \<not> pitch n < PITCH_SPLIT) (allNotes ts))"
  by (simp add: xmlSplitToGrandStaff_def xmlSplitLoop_eq)
lemma xml_split_lh: "snd (xmlSplitToGrandStaff ts) = sortNotes (filter (\<lambda>n. pitch n < PITCH_SPLIT) (allNotes ts))"
  by (simp add: xmlSplitToGrandStaff_def xmlSplitLoop_eq)



lemma sameInstrument_iff:
  "sameInstrument ts \<longleftrightarrow> (\<forall>t\<in>set ts. instrument t = instrument (hd ts))"
  by (simp add: sameInstrument_def list_all_iff)

lemma distinct_gt2_length: "2 < distinctInstruments ts \<Longrightarrow> 2 < length ts"
  unfolding distinctInstruments_def
  using length_remdups_leq[of "map instrument ts"] by simp

lemma same_distinct_le1: "sameInstrument ts \<Longrightarrow> distinctInstruments ts \<le> 1"
proof -
  assume "sameInstrument ts"
  then have "set (map instrument ts) \<subseteq> {instrument (hd ts)}"
    by (auto simp: sameInstrument_iff)
  then have "card (set (map instrument ts)) \<le> card {instrument (hd ts)}"
    by (intro card_mono) auto
  then show ?thesis by (simp add: distinctInstruments_def length_remdups_card_conv)
qed

text \<open>
  Claim C7, amended. Splitting is skipped, and the composition returned as it is, exactly
  when there are more than two tracks and they do not all carry the instrument of the
  first track; more than two distinct labels is one way to be there. Every other
  composition with at least one track comes back with the two split voices as its track
  list and nothing else changed.
\<close>

theorem normalizeComposition_cases:
  "(2 < length (tracks c) \<and> \<not> sameInstrument (tracks c) \<longrightarrow> normalizeComposition c = c)
   \<and> (2 < distinctInstruments (tracks c) \<longrightarrow> normalizeComposition c = c)
   \<and> (tracks c \<noteq> [] \<and> \<not> (2 < length (tracks c) \<and> \<not> sameInstrument (tracks c)) \<longrightarrow>
        normalizeComposition c
          = c\<lparr> tracks := [rh (splitToGrandStaff (tracks c)), lh (splitToGrandStaff (tracks c))] \<rparr>)
   \<and> (sameInstrument (tracks c) \<longleftrightarrow> (\<forall>t\<in>set (tracks c). instrument t = instrument (hd (tracks c))))"
proof -
  have a: "2 < length (tracks c) \<and> \<not> sameInstrument (tracks c) \<longrightarrow> normalizeComposition c = c"
    by (auto simp: normalizeComposition_def)
  have b: "2 < distinctInstruments (tracks c) \<longrightarrow> 2 < length (tracks c) \<and> \<not> sameInstrument (tracks c)"
    using distinct_gt2_length[of "tracks c"] same_distinct_le1[of "tracks c"] by auto
  have d: "tracks c \<noteq> [] \<and> \<not> (2 < length (tracks c) \<and> \<not> sameInstrument (tracks c)) \<longrightarrow>
        normalizeComposition c
          = c\<lparr> tracks := [rh (splitToGrandStaff (tracks c)), lh (splitToGrandStaff (tracks c))] \<rparr>"
    by (auto simp: normalizeComposition_def)
  show ?thesis using a b d sameInstrument_iff by blast
qed

text \<open>
  The theorem at three tracks labelled Piano, Piano, Violin (skipped) and at two Piano
  tracks (split).
\<close>

theorem normalizeComposition_cases_witness:
  "2 < length (tracks (mkComposition trioTracks))
   \<and> \<not> sameInstrument (tracks (mkComposition trioTracks))
   \<and> normalizeComposition (mkComposition trioTracks) = mkComposition trioTracks
   \<and> tracks (mkComposition sampleTracks) \<noteq> []
   \<and> sameInstrument (tracks (mkComposition sampleTracks))
   \<and> tracks (normalizeComposition (mkComposition sampleTracks))
       = [mkTrack ''Piano'' [mkNote 60 (1 / 4) (1 / 4), mkNote 72 1 1], mkTrack ''Piano'' [mkNote 48 0 2]]"
  using normalizeComposition_cases [of "mkComposition trioTracks"]
    normalizeComposition_cases [of "mkComposition sampleTracks"]
  by (simp add: mkComposition_def trioTracks_def sampleTracks_def sameInstrument_def mkTrack_def
      splitToGrandStaff_def mkNote_def allNotes_def firstInstrument_def
      normalizeNote_def quantize_def quantizeGrid_def TIME_GRID_def jsRound_def clamp_def
      PITCH_SPLIT_def sortNotes_def noteKey_def)

text \<open>
  Claim C7 as stated fails: three tracks with two distinct labels are not split.
\<close>

theorem normalizeComposition_two_labels_counterexample:
  "\<not> 2 < distinctInstruments (tracks (mkComposition trioTracks))
   \<and> tracks (mkComposition trioTracks) \<noteq> []
   \<and> tracks (normalizeComposition (mkComposition trioTracks))
       \<noteq> [rh (splitToGrandStaff (tracks (mkComposition trioTracks))),
           lh (splitToGrandStaff (tracks (mkComposition trioTracks)))]"
  by (simp add: normalizeComposition_def mkComposition_def trioTracks_def sameInstrument_def
      mkTrack_def distinctInstruments_def)

section \<open>The encoders: proofs\<close>

lemma find_gap_Some:
  "find (\<lambda>t. t > c \<and> t < e) ts = Some t \<Longrightarrow> c < t \<and> t < e \<and> t \<in> set ts"
  by (induction ts) (auto split: if_splits)

lemma gapTo_bounds: "c < e \<Longrightarrow> 1 \<le> gapTo ts c e \<and> c + gapTo ts c e \<le> e"
  unfolding gapTo_def
  by (cases "find (\<lambda>t. t > c \<and> t < e) ts") (auto dest: find_gap_Some)

lemma loop_rest_id:
  assumes pos: "positive durOf byTime"
    and rl: "\<And>g. 1 \<le> g \<Longrightarrow> g \<le> W \<Longrightarrow> restLen g = g"
  shows "e \<le> c + W \<Longrightarrow>
    measureLoop durOf restLen byTime ts e c out = measureLoop durOf (\<lambda>g. g) byTime ts e c out"
proof (induction "e - c" arbitrary: c out rule: less_induct)
  case less
  show ?case
  proof (cases "c < e")
    case False
    then show ?thesis by (simp add: measureLoop.simps)
  next
    case ce: True
    show ?thesis
    proof (cases "notesAt byTime c = []")
      case False
      then have d: "1 \<le> maxDuration durOf (notesAt byTime c)"
        using pos by (simp add: positive_def)
      have "measureLoop durOf restLen byTime ts e (c + maxDuration durOf (notesAt byTime c))
              (out @ [Chord (notesAt byTime c) (maxDuration durOf (notesAt byTime c))])
          = measureLoop durOf (\<lambda>g. g) byTime ts e (c + maxDuration durOf (notesAt byTime c))
              (out @ [Chord (notesAt byTime c) (maxDuration durOf (notesAt byTime c))])"
        using d ce less.prems by (intro less.hyps) auto
      then show ?thesis
        using ce False
        by (subst measureLoop.simps, subst (2) measureLoop.simps) simp
    next
      case True
      have g: "1 \<le> gapTo ts c e" "c + gapTo ts c e \<le> e"
        using gapTo_bounds[OF ce] by auto
      then have r: "restLen (gapTo ts c e) = gapTo ts c e"
        using less.prems by (intro rl) auto
      have "measureLoop durOf restLen byTime ts e (c + gapTo ts c e) (out @ [Rest (gapTo ts c e)])
          = measureLoop durOf (\<lambda>g. g) byTime ts e (c + gapTo ts c e) (out @ [Rest (gapTo ts c e)])"
        using g ce less.prems by (intro less.hyps) auto
      then show ?thesis
        using ce True r
        by (subst measureLoop.simps, subst (2) measureLoop.simps) simp
    qed
  qed
qed

lemma loop_walks:
  assumes pos: "positive durOf byTime"
  shows "\<exists>res. walks durOf byTime ts e c res
           \<and> (\<forall>out. measureLoop durOf (\<lambda>g. g) byTime ts e c out = Some (out @ res))"
proof (induction "e - c" arbitrary: c rule: less_induct)
  case less
  show ?case
  proof (cases "c < e")
    case False
    then have "walks durOf byTime ts e c []" by (rule walks_done)
    moreover have "\<forall>out. measureLoop durOf (\<lambda>g. g) byTime ts e c out = Some (out @ [])"
      using False by (simp add: measureLoop.simps)
    ultimately show ?thesis by blast
  next
    case ce: True
    show ?thesis
    proof (cases "notesAt byTime c = []")
      case False
      let ?d = "maxDuration durOf (notesAt byTime c)"
      have d: "1 \<le> ?d" using pos False by (simp add: positive_def)
      then have "e - (c + ?d) < e - c" using ce by simp
      from less.hyps[OF this] obtain res where
        w: "walks durOf byTime ts e (c + ?d) res"
        and l: "\<And>out. measureLoop durOf (\<lambda>g. g) byTime ts e (c + ?d) out = Some (out @ res)"
        by blast
      have "walks durOf byTime ts e c (Chord (notesAt byTime c) ?d # res)"
        using ce False w by (rule walks_chord)
      moreover have "\<forall>out. measureLoop durOf (\<lambda>g. g) byTime ts e c out
                       = Some (out @ Chord (notesAt byTime c) ?d # res)"
        using ce False l by (subst measureLoop.simps) simp
      ultimately show ?thesis by blast
    next
      case True
      let ?g = "gapTo ts c e"
      have "1 \<le> ?g" using gapTo_bounds[OF ce] by simp
      then have "e - (c + ?g) < e - c" using ce by simp
      from less.hyps[OF this] obtain res where
        w: "walks durOf byTime ts e (c + ?g) res"
        and l: "\<And>out. measureLoop durOf (\<lambda>g. g) byTime ts e (c + ?g) out = Some (out @ res)"
        by blast
      have "walks durOf byTime ts e c (Rest ?g # res)"
        using ce True w by (rule walks_rest)
      moreover have "\<forall>out. measureLoop durOf (\<lambda>g. g) byTime ts e c out = Some (out @ Rest ?g # res)"
        using ce True l by (subst measureLoop.simps) simp
      ultimately show ?thesis by blast
    qed
  qed
qed

lemma loop_returns:
  assumes "positive durOf byTime"
    and "\<And>g. 1 \<le> g \<Longrightarrow> g \<le> W \<Longrightarrow> restLen g = g" and "e \<le> c + W"
  obtains res where "measureLoop durOf restLen byTime ts e c [] = Some res"
    and "walks durOf byTime ts e c res"
proof -
  obtain res where "walks durOf byTime ts e c res"
    and "measureLoop durOf (\<lambda>g. g) byTime ts e c [] = Some ([] @ res)"
    using loop_walks[OF assms(1), of ts e c] by blast
  then show ?thesis using that loop_rest_id[OF assms(1,2,3), of ts "[]"] by simp
qed

lemma timeline_lower: "(p, tok) \<in> set (timeline c res) \<Longrightarrow> c \<le> p"
  by (induction res arbitrary: c) fastforce+

lemma walks_increasing:
  assumes "positive durOf byTime"
  shows "walks durOf byTime ts e c res \<Longrightarrow> sorted_wrt (<) (map fst (timeline c res))"
proof (induction rule: walks.induct)
  case (walks_done cursor)
  then show ?case by simp
next
  case (walks_chord cursor res)
  have "1 \<le> maxDuration durOf (notesAt byTime cursor)"
    using assms walks_chord.hyps(2) by (simp add: positive_def)
  then show ?case using walks_chord.IH by (fastforce dest: timeline_lower)
next
  case (walks_rest cursor res)
  have "1 \<le> gapTo ts cursor e" using gapTo_bounds[OF walks_rest.hyps(1)] by simp
  then show ?case using walks_rest.IH by (fastforce dest: timeline_lower)
qed

lemma find_sorted_le:
  "sorted ts \<Longrightarrow> t \<in> set ts \<Longrightarrow> P t \<Longrightarrow> \<exists>s. find P ts = Some s \<and> s \<le> t"
  by (induction ts) auto

lemma gapTo_fills:
  assumes srt: "sorted ts" and keys: "\<And>s. (s \<in> set ts) = begins s" and ce: "c < e"
  shows "restFills begins e c (gapTo ts c e)"
proof (cases "find (\<lambda>t. t > c \<and> t < e) ts")
  case None
  then have no: "\<And>s. c < s \<Longrightarrow> s < e \<Longrightarrow> \<not> begins s"
    using keys by (auto simp: find_None_iff)
  have "gapTo ts c e = e - c" by (simp add: gapTo_def None)
  then show ?thesis using ce no by (auto simp: restFills_def list_all_iff)
next
  case (Some s)
  have s: "c < s" "s < e" "s \<in> set ts" using find_gap_Some[OF Some] by auto
  have g: "gapTo ts c e = s - c" by (simp add: gapTo_def Some)
  have no: "\<not> begins x" if cx: "c < x" and xs: "x < s" for x
  proof
    assume "begins x"
    then have "x \<in> set ts" using keys by simp
    then obtain s' where "find (\<lambda>t. t > c \<and> t < e) ts = Some s'" "s' \<le> x"
      using find_sorted_le[OF srt, of x "\<lambda>t. t > c \<and> t < e"] cx xs s by auto
    then show False using Some xs by simp
  qed
  have b: "begins s" using keys s(3) by simp
  show ?thesis unfolding restFills_def g using s b no by (auto simp: list_all_iff)
qed

lemma walks_tokens:
  assumes srt: "sorted ts" and keys: "\<And>s. (s \<in> set ts) = (notesAt byTime s \<noteq> [])"
  shows "walks durOf byTime ts e c res \<Longrightarrow> (p, tok) \<in> set (timeline c res) \<Longrightarrow>
     p < e \<and> tokenFits durOf (notesAt byTime) e p tok"
proof (induction rule: walks.induct)
  case (walks_done cursor)
  then show ?case by simp
next
  case (walks_chord cursor res)
  then show ?case by (auto simp: tokenFits_def)
next
  case (walks_rest cursor res)
  have "restFills (\<lambda>s. notesAt byTime s \<noteq> []) e cursor (gapTo ts cursor e)"
    using walks_rest.hyps(1) keys by (intro gapTo_fills[OF srt]) auto
  then show ?case using walks_rest by (auto simp: tokenFits_def)
qed

lemma walks_end:
  "walks durOf byTime ts e c res \<Longrightarrow> e \<le> c + sum_list (map tokenLen res)"
  by (induction rule: walks.induct) auto

lemma sounding_Cons:
  "sounding t ((p, tok) # rest)
     = ((case tok of Chord ns d \<Rightarrow> p < t \<and> t < p + d | Rest g \<Rightarrow> False) \<or> sounding t rest)"
  by (simp add: sounding_def)

lemma sounding_later: "sounding t (timeline c res) \<Longrightarrow> c < t"
  unfolding sounding_def list_ex_iff
  by (auto dest!: timeline_lower split: token.splits)

lemma timeline_apart:
  "(p, tok) \<in> set (timeline c res) \<Longrightarrow> \<not> sounding p (timeline c res)"
proof (induction res arbitrary: c)
  case Nil
  then show ?case by simp
next
  case (Cons a res)
  show ?case
  proof (cases "(p, tok) = (c, a)")
    case True
    then show ?thesis
      using sounding_later[of c "c + tokenLen a" res]
      by (auto simp: sounding_Cons split: token.splits)
  next
    case False
    then have m: "(p, tok) \<in> set (timeline (c + tokenLen a) res)" using Cons.prems by auto
    then have "c + tokenLen a \<le> p" by (rule timeline_lower)
    then show ?thesis using Cons.IH[OF m] by (auto simp: sounding_Cons split: token.splits)
  qed
qed

lemma walks_cover:
  assumes srt: "sorted ts" and tin: "t \<in> set ts" and te: "t < e"
    and here: "notesAt byTime t \<noteq> []"
  shows "walks durOf byTime ts e c res \<Longrightarrow> c \<le> t \<Longrightarrow>
     (t, Chord (notesAt byTime t) (maxDuration durOf (notesAt byTime t))) \<in> set (timeline c res)
     \<or> sounding t (timeline c res)"
proof (induction rule: walks.induct)
  case (walks_done cursor)
  then show ?case using te by simp
next
  case (walks_chord cursor res)
  show ?case
  proof (cases "cursor = t")
    case True
    then show ?thesis by simp
  next
    case False
    then have lt: "cursor < t" using walks_chord.prems by simp
    show ?thesis
    proof (cases "cursor + maxDuration durOf (notesAt byTime cursor) \<le> t")
      case True
      then show ?thesis using walks_chord.IH by (auto simp: sounding_Cons)
    next
      case False
      then show ?thesis using lt by (simp add: sounding_Cons)
    qed
  qed
next
  case (walks_rest cursor res)
  have lt: "cursor < t" using walks_rest.prems walks_rest.hyps(2) here
    by (cases "cursor = t") auto
  obtain s where s: "find (\<lambda>x. x > cursor \<and> x < e) ts = Some s" "s \<le> t"
    using find_sorted_le[OF srt tin, of "\<lambda>x. x > cursor \<and> x < e"] lt te by auto
  have "cursor < s" using find_gap_Some[OF s(1)] by simp
  then have g: "cursor + gapTo ts cursor e = s" by (simp add: gapTo_def s(1))
  then show ?case using walks_rest.IH s(2) by (auto simp: sounding_Cons)
qed

lemma walks_reach:
  assumes srt: "sorted ts" and tin: "t \<in> set ts" and te: "t < e"
    and here: "notesAt byTime t \<noteq> []"
  shows "walks durOf byTime ts e c res \<Longrightarrow> c \<le> t \<Longrightarrow>
     (\<And>s. c \<le> s \<Longrightarrow> s < t \<Longrightarrow> notesAt byTime s \<noteq> [] \<Longrightarrow>
           s + maxDuration durOf (notesAt byTime s) \<le> t) \<Longrightarrow>
     (t, Chord (notesAt byTime t) (maxDuration durOf (notesAt byTime t))) \<in> set (timeline c res)"
proof (induction rule: walks.induct)
  case (walks_done cursor)
  then show ?case using te by simp
next
  case (walks_chord cursor res)
  show ?case
  proof (cases "cursor = t")
    case True
    then show ?thesis by simp
  next
    case False
    then have lt: "cursor < t" using walks_chord.prems(1) by simp
    then have "cursor + maxDuration durOf (notesAt byTime cursor) \<le> t"
      using walks_chord.prems(2)[of cursor] walks_chord.hyps(2) by simp
    moreover have "\<And>s. cursor + maxDuration durOf (notesAt byTime cursor) \<le> s \<Longrightarrow> s < t \<Longrightarrow>
        notesAt byTime s \<noteq> [] \<Longrightarrow> s + maxDuration durOf (notesAt byTime s) \<le> t"
      using walks_chord.prems(2) by simp
    ultimately show ?thesis using walks_chord.IH by simp
  qed
next
  case (walks_rest cursor res)
  have lt: "cursor < t" using walks_rest.prems(1) walks_rest.hyps(2) here
    by (cases "cursor = t") auto
  obtain s where s: "find (\<lambda>x. x > cursor \<and> x < e) ts = Some s" "s \<le> t"
    using find_sorted_le[OF srt tin, of "\<lambda>x. x > cursor \<and> x < e"] lt te by auto
  have "cursor < s" using find_gap_Some[OF s(1)] by simp
  then have g: "cursor + gapTo ts cursor e = s" by (simp add: gapTo_def s(1))
  have "\<And>s'. cursor + gapTo ts cursor e \<le> s' \<Longrightarrow> s' < t \<Longrightarrow>
        notesAt byTime s' \<noteq> [] \<Longrightarrow> s' + maxDuration durOf (notesAt byTime s') \<le> t"
    using walks_rest.prems(2) by simp
  then show ?case using walks_rest.IH g s(2) by simp
qed

lemma walks_first:
  "walks durOf byTime ts e c res \<Longrightarrow> c < e \<Longrightarrow> notesAt byTime c \<noteq> [] \<Longrightarrow>
     \<exists>r. res = Chord (notesAt byTime c) (maxDuration durOf (notesAt byTime c)) # r"
  by (induction rule: walks.induct) auto

lemma find_double:
  "find (\<lambda>t. t > 2 * c \<and> t < 2 * e) (map (\<lambda>t. 2 * t) ts)
     = map_option (\<lambda>t. 2 * t) (find (\<lambda>t. t > c \<and> t < (e::nat)) ts)"
  by (induction ts) auto

lemma gapTo_double: "c < e \<Longrightarrow> gapTo (map (\<lambda>t. 2 * t) ts) (2 * c) (2 * e) = 2 * gapTo ts c e"
  unfolding gapTo_def find_double
  by (cases "find (\<lambda>t. t > c \<and> t < e) ts") (auto dest: find_gap_Some)

lemma walks_double:
  fixes A :: "('a Note_scheme) timeMap" and X :: "('b Note_scheme) timeMap"
  assumes pit: "\<And>t. map pitch (notesAt X (2 * t)) = map pitch (notesAt A t)"
    and dur: "\<And>t. notesAt A t \<noteq> [] \<Longrightarrow>
                 maxDuration dX (notesAt X (2 * t)) = 2 * maxDuration dA (notesAt A t)"
  shows "walks dA A ts e c res \<Longrightarrow>
     \<exists>res'. walks dX X (map (\<lambda>t. 2 * t) ts) (2 * e) (2 * c) res' \<and> spans 8 res' = spans 4 res"
proof (induction rule: walks.induct)
  case (walks_done cursor)
  then have "walks dX X (map (\<lambda>t. 2 * t) ts) (2 * e) (2 * cursor) []"
    by (intro walks.walks_done) simp
  then show ?case by (auto simp: spans_def)
next
  case (walks_chord cursor res)
  then obtain res' where r: "walks dX X (map (\<lambda>t. 2 * t) ts) (2 * e)
       (2 * (cursor + maxDuration dA (notesAt A cursor))) res'" "spans 8 res' = spans 4 res"
    by blast
  have ne: "notesAt X (2 * cursor) \<noteq> []"
    using pit[of cursor] walks_chord.hyps(2) by (metis map_is_Nil_conv)
  have d: "maxDuration dX (notesAt X (2 * cursor)) = 2 * maxDuration dA (notesAt A cursor)"
    using dur walks_chord.hyps(2) by simp
  have w: "walks dX X (map (\<lambda>t. 2 * t) ts) (2 * e)
       (2 * cursor + maxDuration dX (notesAt X (2 * cursor))) res'"
    using r(1) by (simp add: d distrib_left)
  have "walks dX X (map (\<lambda>t. 2 * t) ts) (2 * e) (2 * cursor)
          (Chord (notesAt X (2 * cursor)) (maxDuration dX (notesAt X (2 * cursor))) # res')"
    using walks_chord.hyps(1) ne w by (intro walks.walks_chord) simp_all
  moreover have "spans 8 (Chord (notesAt X (2 * cursor)) (maxDuration dX (notesAt X (2 * cursor))) # res')
      = spans 4 (Chord (notesAt A cursor) (maxDuration dA (notesAt A cursor)) # res)"
    using r(2) pit[of cursor] by (simp add: spans_def d)
  ultimately show ?case by blast
next
  case (walks_rest cursor res)
  then obtain res' where r: "walks dX X (map (\<lambda>t. 2 * t) ts) (2 * e)
       (2 * (cursor + gapTo ts cursor e)) res'" "spans 8 res' = spans 4 res"
    by blast
  have ne: "notesAt X (2 * cursor) = []"
    using pit[of cursor] walks_rest.hyps(2) by simp
  have g: "gapTo (map (\<lambda>t. 2 * t) ts) (2 * cursor) (2 * e) = 2 * gapTo ts cursor e"
    using walks_rest.hyps(1) by (rule gapTo_double)
  have w: "walks dX X (map (\<lambda>t. 2 * t) ts) (2 * e)
       (2 * cursor + gapTo (map (\<lambda>t. 2 * t) ts) (2 * cursor) (2 * e)) res'"
    using r(1) by (simp add: g distrib_left)
  have "walks dX X (map (\<lambda>t. 2 * t) ts) (2 * e) (2 * cursor)
          (Rest (gapTo (map (\<lambda>t. 2 * t) ts) (2 * cursor) (2 * e)) # res')"
    using walks_rest.hyps(1) ne w by (intro walks.walks_rest) simp_all
  moreover have "spans 8 (Rest (gapTo (map (\<lambda>t. 2 * t) ts) (2 * cursor) (2 * e)) # res')
      = spans 4 (Rest (gapTo ts cursor e) # res)"
    using r(2) by (simp add: spans_def g)
  ultimately show ?case by blast
qed

lemma walks_unique:
  "walks durOf byTime ts e c res \<Longrightarrow> walks durOf byTime ts e c res' \<Longrightarrow> res = res'"
proof (induction arbitrary: res' rule: walks.induct)
  case (walks_done cursor)
  then show ?case by (auto elim: walks.cases)
next
  case (walks_chord cursor res)
  from walks_chord.prems walks_chord.hyps(1,2) show ?case
    by (cases rule: walks.cases) (auto dest: walks_chord.IH)
next
  case (walks_rest cursor res)
  from walks_rest.prems walks_rest.hyps(1,2) show ?case
    by (cases rule: walks.cases) (auto dest: walks_rest.IH)
qed

lemma timed_sel [simp]:
  "pitch (timed n) = pitch n" "time (timed n) = time n" "duration (timed n) = duration n"
  "timeTicks (timed n) = toTicksTime (time n)"
  "durationTicks (timed n) = toTicksDuration (duration n)"
  by (simp_all add: timed_def Note.defs TimedNote.defs)

lemma xmlTimed_sel [simp]:
  "pitch (xmlTimed n) = pitch n" "time (xmlTimed n) = time n"
  "xmlDuration (xmlTimed n) = max 1 (toTicks (duration n))"
  by (simp_all add: xmlTimed_def xmlDuration_def)

lemma notesAt_update: "notesAt (AList.update k v al) t = (if t = k then v else notesAt al t)"
  by (simp add: notesAt_def update_conv')

lemma notesAt_buildTimeMapLoop:
  "notesAt (buildTimeMapLoop ns bt) t = notesAt bt t @ abcOnset ns t"
  by (induction ns arbitrary: bt) (auto simp: notesAt_update abcOnset_def)

lemma notesAt_buildMeasureMapLoop:
  "notesAt (buildMeasureMapLoop ns bt) t = notesAt bt t @ xmlOnset ns t"
  by (induction ns arbitrary: bt) (auto simp: notesAt_update xmlOnset_def)

lemma keys_buildTimeMapLoop:
  "set (map fst (buildTimeMapLoop ns bt)) = set (map fst bt) \<union> (\<lambda>n. toTicksTime (time n)) ` set ns"
  by (induction ns arbitrary: bt) (auto simp: dom_update)

lemma keys_buildMeasureMapLoop:
  "set (map fst (buildMeasureMapLoop ns bt)) = set (map fst bt) \<union> (\<lambda>n. toTicks (time n)) ` set ns"
  by (induction ns arbitrary: bt) (auto simp: dom_update)

lemma distinct_buildTimeMapLoop:
  "distinct (map fst bt) \<Longrightarrow> distinct (map fst (buildTimeMapLoop ns bt))"
  by (induction ns arbitrary: bt) (auto simp: distinct_update)

lemma distinct_buildMeasureMapLoop:
  "distinct (map fst bt) \<Longrightarrow> distinct (map fst (buildMeasureMapLoop ns bt))"
  by (induction ns arbitrary: bt) (auto simp: distinct_update)

lemma notesAt_Nil [simp]: "notesAt [] t = []"
  by (simp add: notesAt_def)

lemma buildTimeMap_notes: "notesAt (fst (buildTimeMap ns)) t = abcOnset ns t"
  by (simp add: buildTimeMap_def Let_def notesAt_buildTimeMapLoop)

lemma buildMeasureMap_notes: "notesAt (fst (buildMeasureMap ns)) t = xmlOnset ns t"
  by (simp add: buildMeasureMap_def Let_def notesAt_buildMeasureMapLoop)

lemma buildTimeMap_times:
  "sorted (snd (buildTimeMap ns))" "distinct (snd (buildTimeMap ns))"
  "set (snd (buildTimeMap ns)) = (\<lambda>n. toTicksTime (time n)) ` set ns"
  using keys_buildTimeMapLoop[of ns "[]"] distinct_buildTimeMapLoop[of "[]" ns]
  by (simp_all add: buildTimeMap_def Let_def)

lemma buildMeasureMap_times:
  "sorted (snd (buildMeasureMap ns))" "distinct (snd (buildMeasureMap ns))"
  "set (snd (buildMeasureMap ns)) = (\<lambda>n. toTicks (time n)) ` set ns"
  using keys_buildMeasureMapLoop[of ns "[]"] distinct_buildMeasureMapLoop[of "[]" ns]
  by (simp_all add: buildMeasureMap_def Let_def)

lemma maxDuration_ge1: "xs \<noteq> [] \<Longrightarrow> (\<And>x. x \<in> set xs \<Longrightarrow> 1 \<le> f x) \<Longrightarrow> 1 \<le> maxDuration f xs"
  unfolding maxDuration_def by (cases xs) (auto simp: Max_ge_iff)

lemma toTicksDuration_ge1: "Suc 0 \<le> toTicksDuration v"
  by (simp add: toTicksDuration_def)

lemma positive_buildTimeMap: "positive durationTicks (fst (buildTimeMap ns))"
  unfolding positive_def buildTimeMap_notes
proof (intro allI impI)
  fix t assume "abcOnset ns t \<noteq> []"
  then show "1 \<le> maxDuration durationTicks (abcOnset ns t)"
    by (rule maxDuration_ge1) (auto simp: abcOnset_def toTicksDuration_ge1)
qed

lemma positive_buildMeasureMap: "positive xmlDuration (fst (buildMeasureMap ns))"
  unfolding positive_def buildMeasureMap_notes
proof (intro allI impI)
  fix t assume "xmlOnset ns t \<noteq> []"
  then show "1 \<le> maxDuration xmlDuration (xmlOnset ns t)"
    by (rule maxDuration_ge1) (auto simp: xmlOnset_def)
qed

lemma xmlRestLen_id: "1 \<le> g \<Longrightarrow> g \<le> 32 \<Longrightarrow> xmlRestLen g = g"
  by (simp add: xmlRestLen_def TICKS_PER_MEASURE_def DIVISIONS_def BEATS_PER_MEASURE_def)

text \<open>Both renderers return, and what they return is the walk.\<close>

lemma abcRenderMeasure_walks:
  obtains res where
    "abcRenderMeasure (fst (buildTimeMap ns)) (snd (buildTimeMap ns)) m = Some res"
    "walks durationTicks (fst (buildTimeMap ns)) (snd (buildTimeMap ns)) ((m + 1) * 16) (m * 16) res"
proof -
  obtain res where
    "measureLoop durationTicks (\<lambda>g. g) (fst (buildTimeMap ns)) (snd (buildTimeMap ns))
       ((m + 1) * 16) (m * 16) [] = Some res"
    "walks durationTicks (fst (buildTimeMap ns)) (snd (buildTimeMap ns)) ((m + 1) * 16) (m * 16) res"
    by (rule loop_returns[OF positive_buildTimeMap, of 16 "\<lambda>g. g" "(m + 1) * 16" "m * 16"]) auto
  then show ?thesis using that
    by (simp add: abcRenderMeasure_def ticksPerMeasure_def beatsPerMeasure_def ticksPerBeat_def)
qed

lemma xmlRenderMeasure_walks:
  obtains res where
    "xmlRenderMeasure (fst (buildMeasureMap ns)) (snd (buildMeasureMap ns)) m = Some res"
    "walks xmlDuration (fst (buildMeasureMap ns)) (snd (buildMeasureMap ns)) ((m + 1) * 32) (m * 32) res"
proof -
  obtain res where
    "measureLoop xmlDuration xmlRestLen (fst (buildMeasureMap ns)) (snd (buildMeasureMap ns))
       ((m + 1) * 32) (m * 32) [] = Some res"
    "walks xmlDuration (fst (buildMeasureMap ns)) (snd (buildMeasureMap ns)) ((m + 1) * 32) (m * 32) res"
    by (rule loop_returns[OF positive_buildMeasureMap, of 32 xmlRestLen "(m + 1) * 32" "m * 32"])
       (auto simp: xmlRestLen_id)
  then show ?thesis using that
    by (simp add: xmlRenderMeasure_def TICKS_PER_MEASURE_def DIVISIONS_def BEATS_PER_MEASURE_def)
qed

lemma toTicksTime_grid: "toTicksTime (of_nat k / 4) = k"
  by (simp add: toTicksTime_def TIME_GRID_def jsRound_def)

lemma toTicksDuration_grid: "1 \<le> k \<Longrightarrow> toTicksDuration (of_nat k / 4) = k"
  by (simp add: toTicksDuration_def TIME_GRID_def jsRound_def)

lemma toTicks_grid: "toTicks (of_nat k / 4) = 2 * k"
proof -
  have "real k / 4 * 8 = real (2 * k)" by simp
  then have "jsRound (real k / 4 * 8) = int (2 * k)"
    unfolding jsRound_def by (metis jsRound_def jsRound_of_int of_int_of_nat_eq)
  then show ?thesis by (simp add: toTicks_def DIVISIONS_def)
qed

lemma quantized_ticks:
  assumes "quantized n"
  shows "toTicks (time n) = 2 * toTicksTime (time n)"
    and "toTicks (duration n) = 2 * toTicksDuration (duration n)"
proof -
  obtain k :: nat where k: "time n = of_nat k / 4"
    using assms max0_quantize_nat[of "time n"] by (auto simp: quantized_def)
  obtain j :: nat where j: "1 \<le> j" "duration n = of_nat j / 4"
    using assms maxgrid_quantize_nat[of "duration n"] by (auto simp: quantized_def)
  show "toTicks (time n) = 2 * toTicksTime (time n)"
    unfolding k by (simp only: toTicks_grid toTicksTime_grid)
  show "toTicks (duration n) = 2 * toTicksDuration (duration n)"
    unfolding j(2) using j(1) by (simp only: toTicks_grid toTicksDuration_grid)
qed

lemma quantized_normalize:
  "quantized n \<Longrightarrow> time (normalizeNote n) = time n \<and> duration (normalizeNote n) = duration n"
  by (simp add: quantized_def normalizeNote_def)

lemma insort_key_map_cong:
  "(\<And>y. y \<in> set (x # ys) \<Longrightarrow> f (g y) = h y) \<Longrightarrow>
     insort_key f (g x) (map g ys) = map g (insort_key h x ys)"
  by (induction ys) auto

lemma sort_key_map_cong:
  "(\<And>y. y \<in> set xs \<Longrightarrow> f (g y) = h y) \<Longrightarrow> sort_key f (map g xs) = map g (sort_key h xs)"
proof (induction xs)
  case Nil
  then show ?case by simp
next
  case (Cons x xs)
  have "sort_key f (map g (x # xs)) = insort_key f (g x) (sort_key f (map g xs))"
    by (simp add: sort_key_def)
  also have "\<dots> = insort_key f (g x) (map g (sort_key h xs))"
    using Cons by simp
  also have "\<dots> = map g (insort_key h x (sort_key h xs))"
    using Cons.prems by (intro insort_key_map_cong) auto
  finally show ?case by (simp add: sort_key_def)
qed

lemma sorted_time_of_key: "sorted (map noteKey xs) \<Longrightarrow> sorted (map time xs)"
  unfolding sorted_map
  by (erule sorted_wrt_mono_rel[rotated]) (auto simp: noteKey_def)

lemma resort_by_time: "sort_key time (sortNotes xs) = sortNotes xs"
  by (rule sort_key_id_if_sorted) (simp add: sorted_time_of_key sortNotes_def)

lemma abcRhNotes_eq: "abcRhNotes c = sortNotes (upperNotes (tracks c))"
  by (simp add: abcRhNotes_def split_rh resort_by_time)

lemma abcLhNotes_eq: "abcLhNotes c = sortNotes (lowerNotes (tracks c))"
  by (simp add: abcLhNotes_def split_lh resort_by_time)

lemma sortNotes_normalize:
  assumes "\<forall>n\<in>set xs. quantized n"
  shows "sortNotes (map normalizeNote xs) = map normalizeNote (sortNotes xs)"
  unfolding sortNotes_def
  by (rule sort_key_map_cong)
     (simp add: noteKey_def quantized_normalize assms pitch_normalizeNote)

lemma abc_of_xml_rh:
  assumes "\<forall>n\<in>set (allNotes (tracks c)). quantized n"
  shows "abcRhNotes c = map normalizeNote (xmlRhNotes c)"
proof -
  have u: "upperNotes (tracks c)
      = map normalizeNote (filter (\<lambda>n. \<not> pitch n < PITCH_SPLIT) (allNotes (tracks c)))"
    by (simp add: upperNotes_def filter_map o_def pitch_normalizeNote)
  have "sortNotes (map normalizeNote (filter (\<lambda>n. \<not> pitch n < PITCH_SPLIT) (allNotes (tracks c))))
      = map normalizeNote (sortNotes (filter (\<lambda>n. \<not> pitch n < PITCH_SPLIT) (allNotes (tracks c))))"
    by (rule sortNotes_normalize) (simp add: assms)
  then show ?thesis
    unfolding abcRhNotes_eq xmlRhNotes_def xml_split_rh u by simp
qed

lemma abc_of_xml_lh:
  assumes "\<forall>n\<in>set (allNotes (tracks c)). quantized n"
  shows "abcLhNotes c = map normalizeNote (xmlLhNotes c)"
proof -
  have u: "lowerNotes (tracks c)
      = map normalizeNote (filter (\<lambda>n. pitch n < PITCH_SPLIT) (allNotes (tracks c)))"
    by (simp add: lowerNotes_def filter_map o_def pitch_normalizeNote)
  have "sortNotes (map normalizeNote (filter (\<lambda>n. pitch n < PITCH_SPLIT) (allNotes (tracks c))))
      = map normalizeNote (sortNotes (filter (\<lambda>n. pitch n < PITCH_SPLIT) (allNotes (tracks c))))"
    by (rule sortNotes_normalize) (simp add: assms)
  then show ?thesis
    unfolding abcLhNotes_eq xmlLhNotes_def xml_split_lh u by simp
qed

lemma xml_voice_subset:
  "set (xmlRhNotes c) \<subseteq> set (allNotes (tracks c))" "set (xmlLhNotes c) \<subseteq> set (allNotes (tracks c))"
  by (auto simp: xmlRhNotes_def xmlLhNotes_def xml_split_rh xml_split_lh set_sortNotes)

lemma maxDuration_Cons:
  "maxDuration f (x # xs) = (if xs = [] then f x else max (f x) (maxDuration f xs))"
  by (simp add: maxDuration_def)

lemma maxDuration_double:
  "F \<noteq> [] \<Longrightarrow> (\<And>x. x \<in> set F \<Longrightarrow> g (a x) = 2 * f (b x)) \<Longrightarrow>
     maxDuration g (map a F) = 2 * maxDuration f (map b F)"
proof (induction F)
  case Nil
  then show ?case by simp
next
  case (Cons x F)
  show ?case
  proof (cases "F = []")
    case True
    then show ?thesis using Cons.prems(2)[of x] by (simp add: maxDuration_Cons)
  next
    case False
    then have "maxDuration g (map a F) = 2 * maxDuration f (map b F)"
      using Cons by simp
    then show ?thesis using False Cons.prems(2)[of x] by (simp add: maxDuration_Cons)
  qed
qed

lemma maxOrZero_Cons: "maxOrZero (x # xs) = max x (maxOrZero xs)"
  by (simp add: maxOrZero_def)

lemma maxOrZero_double:
  "(\<And>x. x \<in> set F \<Longrightarrow> g (a x) = 2 * f (b x)) \<Longrightarrow>
     maxOrZero (map g (map a F)) = 2 * maxOrZero (map f (map b F))"
proof (induction F)
  case Nil
  then show ?case by (simp add: maxOrZero_def)
next
  case (Cons x F)
  then have "maxOrZero (map g (map a F)) = 2 * maxOrZero (map f (map b F))" by simp
  then show ?case using Cons.prems[of x] by (simp add: maxOrZero_Cons)
qed

text \<open>A voice of quantized notes, as the two encoders see it.\<close>

lemma onset_abc:
  assumes "\<forall>n\<in>set NX. quantized n"
  shows "abcOnset (map normalizeNote NX) t
           = map (\<lambda>n. timed (normalizeNote n)) (filter (\<lambda>n. toTicksTime (time n) = t) NX)"
proof -
  have "filter ((\<lambda>n. toTicksTime (time n) = t) \<circ> normalizeNote) NX
      = filter (\<lambda>n. toTicksTime (time n) = t) NX"
    by (rule filter_cong) (auto simp: quantized_normalize assms)
  then show ?thesis by (simp add: abcOnset_def filter_map)
qed

lemma onset_xml:
  assumes "\<forall>n\<in>set NX. quantized n"
  shows "xmlOnset NX (2 * t) = map xmlTimed (filter (\<lambda>n. toTicksTime (time n) = t) NX)"
proof -
  have "filter (\<lambda>n. toTicks (time n) = 2 * t) NX = filter (\<lambda>n. toTicksTime (time n) = t) NX"
    by (rule filter_cong) (auto simp: quantized_ticks assms)
  then show ?thesis by (simp add: xmlOnset_def)
qed

lemma voice_times:
  assumes q: "\<forall>n\<in>set NX. quantized n"
  shows "snd (buildMeasureMap NX) = map (\<lambda>t. 2 * t) (snd (buildTimeMap (map normalizeNote NX)))"
proof (rule sorted_distinct_set_unique)
  show "sorted (snd (buildMeasureMap NX))" "distinct (snd (buildMeasureMap NX))"
    by (rule buildMeasureMap_times)+
  show "sorted (map (\<lambda>t. 2 * t) (snd (buildTimeMap (map normalizeNote NX))))"
    using buildTimeMap_times(1)[of "map normalizeNote NX"]
    by (simp add: sorted_map sorted_wrt_mono_rel[of _ "(\<le>)"])
  show "distinct (map (\<lambda>t. 2 * t) (snd (buildTimeMap (map normalizeNote NX))))"
    using buildTimeMap_times(2)[of "map normalizeNote NX"]
    by (simp add: distinct_map inj_on_def)
  show "set (snd (buildMeasureMap NX))
      = set (map (\<lambda>t. 2 * t) (snd (buildTimeMap (map normalizeNote NX))))"
    using q by (auto simp: buildMeasureMap_times(3) buildTimeMap_times(3) image_iff
        quantized_ticks quantized_normalize)
qed

lemma voice_lock_step:
  assumes q: "\<forall>n\<in>set NX. quantized n"
  shows "\<exists>ta tx. abcVoiceMeasure (map normalizeNote NX) m = Some ta
           \<and> xmlVoiceMeasure NX m = Some tx \<and> spans 8 tx = spans 4 ta"
proof -
  let ?NA = "map normalizeNote NX"
  let ?F = "\<lambda>t. filter (\<lambda>n. toTicksTime (time n) = t) NX"
  obtain ta where ta: "abcVoiceMeasure ?NA m = Some ta"
    and wa: "walks durationTicks (fst (buildTimeMap ?NA)) (snd (buildTimeMap ?NA))
               ((m + 1) * 16) (m * 16) ta"
    unfolding abcVoiceMeasure_def by (rule abcRenderMeasure_walks)
  obtain tx where tx: "xmlVoiceMeasure NX m = Some tx"
    and wx: "walks xmlDuration (fst (buildMeasureMap NX)) (snd (buildMeasureMap NX))
               ((m + 1) * 32) (m * 32) tx"
    unfolding xmlVoiceMeasure_def by (rule xmlRenderMeasure_walks)
  have pit: "\<And>t. map pitch (notesAt (fst (buildMeasureMap NX)) (2 * t))
                 = map pitch (notesAt (fst (buildTimeMap ?NA)) t)"
    by (simp add: buildMeasureMap_notes buildTimeMap_notes onset_abc onset_xml q
        o_def pitch_normalizeNote)
  have dur: "\<And>t. notesAt (fst (buildTimeMap ?NA)) t \<noteq> [] \<Longrightarrow>
        maxDuration xmlDuration (notesAt (fst (buildMeasureMap NX)) (2 * t))
          = 2 * maxDuration durationTicks (notesAt (fst (buildTimeMap ?NA)) t)"
  proof -
    fix t assume "notesAt (fst (buildTimeMap ?NA)) t \<noteq> []"
    then have ne: "?F t \<noteq> []" by (simp add: buildTimeMap_notes onset_abc q)
    have "maxDuration xmlDuration (map xmlTimed (?F t))
        = 2 * maxDuration durationTicks (map (\<lambda>n. timed (normalizeNote n)) (?F t))"
    proof (rule maxDuration_double[OF ne])
      fix x assume "x \<in> set (?F t)"
      then have qx: "quantized x" using q by simp
      have "1 \<le> toTicksDuration (duration x)" by (simp add: toTicksDuration_def)
      then show "xmlDuration (xmlTimed x) = 2 * durationTicks (timed (normalizeNote x))"
        using quantized_ticks(2)[OF qx] quantized_normalize[OF qx] by simp
    qed
    then show "maxDuration xmlDuration (notesAt (fst (buildMeasureMap NX)) (2 * t))
          = 2 * maxDuration durationTicks (notesAt (fst (buildTimeMap ?NA)) t)"
      by (simp add: buildMeasureMap_notes buildTimeMap_notes onset_abc onset_xml q)
  qed
  obtain res' where w': "walks xmlDuration (fst (buildMeasureMap NX))
        (map (\<lambda>t. 2 * t) (snd (buildTimeMap ?NA))) (2 * ((m + 1) * 16)) (2 * (m * 16)) res'"
    and sp: "spans 8 res' = spans 4 ta"
    using walks_double[OF pit dur wa] by blast
  have "walks xmlDuration (fst (buildMeasureMap NX)) (snd (buildMeasureMap NX))
          ((m + 1) * 32) (m * 32) res'"
  proof -
    have "2 * ((m + 1) * 16) = (m + 1) * 32" "2 * (m * 16) = m * 32" by simp_all
    then show ?thesis using w' by (simp only: voice_times[OF q])
  qed
  then have "tx = res'" using wx by (rule walks_unique[rotated])
  then show ?thesis using ta tx sp by blast
qed

lemma total_measures:
  assumes q: "\<forall>n\<in>set (allNotes (tracks c)). quantized n"
  shows "abcTotalMeasures c = max 32 (xmlTotalMeasures c)"
proof -
  have e: "\<And>x. quantized x \<Longrightarrow> xmlEndTick x = 2 * abcEndTick (normalizeNote x)"
    by (simp add: xmlEndTick_def abcEndTick_def quantized_ticks quantized_normalize)
  have "maxOrZero (map xmlEndTick (map (\<lambda>x. x) (xmlRhNotes c)))
      = 2 * maxOrZero (map abcEndTick (map normalizeNote (xmlRhNotes c)))"
    by (rule maxOrZero_double) (use e q xml_voice_subset(1)[of c] in auto)
  then have r: "maxOrZero (map xmlEndTick (xmlRhNotes c)) = 2 * maxOrZero (map abcEndTick (abcRhNotes c))"
    by (simp add: abc_of_xml_rh[OF q])
  have "maxOrZero (map xmlEndTick (map (\<lambda>x. x) (xmlLhNotes c)))
      = 2 * maxOrZero (map abcEndTick (map normalizeNote (xmlLhNotes c)))"
    by (rule maxOrZero_double) (use e q xml_voice_subset(2)[of c] in auto)
  then have l: "maxOrZero (map xmlEndTick (xmlLhNotes c)) = 2 * maxOrZero (map abcEndTick (abcLhNotes c))"
    by (simp add: abc_of_xml_lh[OF q])
  have m: "maxTick c = 2 * globalMaxTick c"
    by (simp add: maxTick_def globalMaxTick_def r l TICKS_PER_MEASURE_def DIVISIONS_def
        BEATS_PER_MEASURE_def ticksPerMeasure_def beatsPerMeasure_def ticksPerBeat_def)
  have g: "16 \<le> globalMaxTick c"
    by (simp add: globalMaxTick_def ticksPerMeasure_def beatsPerMeasure_def ticksPerBeat_def)
  then have "1 \<le> real (globalMaxTick c) / 16" by simp
  then have "1 \<le> \<lceil>real (globalMaxTick c) / 16\<rceil>" by linarith
  then have "1 \<le> nat \<lceil>real (globalMaxTick c) / 16\<rceil>" by linarith
  moreover have "real (maxTick c) / real TICKS_PER_MEASURE = real (globalMaxTick c) / 16"
    by (simp add: m TICKS_PER_MEASURE_def DIVISIONS_def BEATS_PER_MEASURE_def)
  ultimately have "xmlTotalMeasures c = nat \<lceil>real (globalMaxTick c) / 16\<rceil>"
    unfolding xmlTotalMeasures_def by (simp only: max_def split: if_splits) simp
  then show ?thesis
    by (simp add: abcTotalMeasures_def minMeasures_def linesPerPage_def barsPerLine_def
        ticksPerMeasure_def beatsPerMeasure_def ticksPerBeat_def)
qed

text \<open>
  Claim C1, amended. For a composition whose notes are all on the quarter-beat grid
  (\<^const>\<open>quantized\<close>), the Notation-Text measure count is the Score-XML measure count
  raised to the page minimum of 32, and in every measure \<open>m\<close> and either voice both
  renderers return, with the same events: the same rests and the same chords (by
  pitch) at the same beats with the same lengths in beats.
\<close>

theorem encoders_agree_on_quantized:
  assumes "\<forall>n\<in>set (allNotes (tracks c)). quantized n"
  shows "abcTotalMeasures c = max 32 (xmlTotalMeasures c)
    \<and> (\<exists>ta tx. abcVoiceMeasure (abcRhNotes c) m = Some ta
          \<and> xmlVoiceMeasure (xmlRhNotes c) m = Some tx
          \<and> events ticksPerBeat m ta = events DIVISIONS m tx)
    \<and> (\<exists>ta tx. abcVoiceMeasure (abcLhNotes c) m = Some ta
          \<and> xmlVoiceMeasure (xmlLhNotes c) m = Some tx
          \<and> events ticksPerBeat m ta = events DIVISIONS m tx)"
proof -
  note q = assms
  have qr: "\<forall>n\<in>set (xmlRhNotes c). quantized n"
    using q xml_voice_subset(1)[of c] by blast
  have ql: "\<forall>n\<in>set (xmlLhNotes c). quantized n"
    using q xml_voice_subset(2)[of c] by blast
  have r: "\<exists>ta tx. abcVoiceMeasure (abcRhNotes c) m = Some ta
          \<and> xmlVoiceMeasure (xmlRhNotes c) m = Some tx
          \<and> events ticksPerBeat m ta = events DIVISIONS m tx"
    using voice_lock_step[OF qr, where m = m] unfolding abc_of_xml_rh[OF q]
    by (auto simp: events_def ticksPerBeat_def DIVISIONS_def)
  have l: "\<exists>ta tx. abcVoiceMeasure (abcLhNotes c) m = Some ta
          \<and> xmlVoiceMeasure (xmlLhNotes c) m = Some tx
          \<and> events ticksPerBeat m ta = events DIVISIONS m tx"
    using voice_lock_step[OF ql, where m = m] unfolding abc_of_xml_lh[OF q]
    by (auto simp: events_def ticksPerBeat_def DIVISIONS_def)
  show ?thesis using total_measures[OF q] r l by blast
qed

lemma timeline_token: "(p, tok) \<in> set (timeline c res) \<Longrightarrow> tok \<in> set res"
  by (induction res arbitrary: c) auto

lemma maxDuration_le:
  "xs \<noteq> [] \<Longrightarrow> (\<And>x. x \<in> set xs \<Longrightarrow> f x \<le> B) \<Longrightarrow> maxDuration f xs \<le> B"
  unfolding maxDuration_def by (cases xs) auto

lemma chord_member:
  "Chord ns d \<in> set toks \<Longrightarrow> x \<in> set ns \<Longrightarrow> x \<in> set (chordMembers (Some toks))"
  by (force simp: chordMembers_def)

lemma abc_emits:
  assumes sep: "\<forall>a\<in>set ns. \<forall>b\<in>set ns. toTicksTime (time a) < toTicksTime (time b) \<longrightarrow>
        toTicksTime (time a) + toTicksDuration (duration a) \<le> toTicksTime (time b)"
    and n: "n \<in> set ns" and tot: "toTicksTime (time n) < totalMeasures * 16"
  shows "timed n \<in> set (abcEmitted ns totalMeasures)"
proof -
  let ?t = "toTicksTime (time n)"
  let ?m = "?t div 16"
  let ?A = "fst (buildTimeMap ns)"
  obtain res where r: "abcVoiceMeasure ns ?m = Some res"
    and w: "walks durationTicks ?A (snd (buildTimeMap ns)) ((?m + 1) * 16) (?m * 16) res"
    unfolding abcVoiceMeasure_def by (rule abcRenderMeasure_walks)
  have here: "timed n \<in> set (notesAt ?A ?t)"
    using n by (simp add: buildTimeMap_notes abcOnset_def)
  have blk: "\<And>s. ?m * 16 \<le> s \<Longrightarrow> s < ?t \<Longrightarrow> notesAt ?A s \<noteq> [] \<Longrightarrow>
      s + maxDuration durationTicks (notesAt ?A s) \<le> ?t"
  proof -
    fix s assume "s < ?t" and ne: "notesAt ?A s \<noteq> []"
    have "maxDuration durationTicks (notesAt ?A s) \<le> ?t - s"
    proof (rule maxDuration_le[OF ne])
      fix x assume "x \<in> set (notesAt ?A s)"
      then obtain a where "a \<in> set ns" "toTicksTime (time a) = s" "x = timed a"
        by (auto simp: buildTimeMap_notes abcOnset_def)
      then show "durationTicks x \<le> ?t - s" using sep n \<open>s < ?t\<close> by fastforce
    qed
    then show "s + maxDuration durationTicks (notesAt ?A s) \<le> ?t" using \<open>s < ?t\<close> by simp
  qed
  have "(?t, Chord (notesAt ?A ?t) (maxDuration durationTicks (notesAt ?A ?t)))
      \<in> set (timeline (?m * 16) res)"
  proof (rule walks_reach[OF _ _ _ _ w])
    show "sorted (snd (buildTimeMap ns))" by (rule buildTimeMap_times)
    show "?t \<in> set (snd (buildTimeMap ns))" using n by (simp add: buildTimeMap_times(3))
    show "?t < (?m + 1) * 16" by simp
    show "notesAt ?A ?t \<noteq> []" using here by auto
    show "?m * 16 \<le> ?t" by simp
  qed (rule blk)
  then have "Chord (notesAt ?A ?t) (maxDuration durationTicks (notesAt ?A ?t)) \<in> set res"
    by (rule timeline_token)
  then have "timed n \<in> set (chordMembers (abcVoiceMeasure ns ?m))"
    unfolding r using here by (rule chord_member)
  moreover have "?m < totalMeasures" using tot by (simp add: div_less_iff_less_mult)
  ultimately show ?thesis unfolding abcEmitted_def by auto
qed

lemma xml_emits:
  assumes sep: "\<forall>a\<in>set ns. \<forall>b\<in>set ns. toTicks (time a) < toTicks (time b) \<longrightarrow>
        toTicks (time a) + max 1 (toTicks (duration a)) \<le> toTicks (time b)"
    and n: "n \<in> set ns" and tot: "toTicks (time n) < totalMeasures * 32"
  shows "xmlTimed n \<in> set (xmlEmitted ns totalMeasures)"
proof -
  let ?t = "toTicks (time n)"
  let ?m = "?t div 32"
  let ?A = "fst (buildMeasureMap ns)"
  obtain res where r: "xmlVoiceMeasure ns ?m = Some res"
    and w: "walks xmlDuration ?A (snd (buildMeasureMap ns)) ((?m + 1) * 32) (?m * 32) res"
    unfolding xmlVoiceMeasure_def by (rule xmlRenderMeasure_walks)
  have here: "xmlTimed n \<in> set (notesAt ?A ?t)"
    using n by (simp add: buildMeasureMap_notes xmlOnset_def)
  have blk: "\<And>s. ?m * 32 \<le> s \<Longrightarrow> s < ?t \<Longrightarrow> notesAt ?A s \<noteq> [] \<Longrightarrow>
      s + maxDuration xmlDuration (notesAt ?A s) \<le> ?t"
  proof -
    fix s assume "s < ?t" and ne: "notesAt ?A s \<noteq> []"
    have "maxDuration xmlDuration (notesAt ?A s) \<le> ?t - s"
    proof (rule maxDuration_le[OF ne])
      fix x assume "x \<in> set (notesAt ?A s)"
      then obtain a where "a \<in> set ns" "toTicks (time a) = s" "x = xmlTimed a"
        by (auto simp: buildMeasureMap_notes xmlOnset_def)
      then show "xmlDuration x \<le> ?t - s" using sep n \<open>s < ?t\<close> by fastforce
    qed
    then show "s + maxDuration xmlDuration (notesAt ?A s) \<le> ?t" using \<open>s < ?t\<close> by simp
  qed
  have "(?t, Chord (notesAt ?A ?t) (maxDuration xmlDuration (notesAt ?A ?t)))
      \<in> set (timeline (?m * 32) res)"
  proof (rule walks_reach[OF _ _ _ _ w])
    show "sorted (snd (buildMeasureMap ns))" by (rule buildMeasureMap_times)
    show "?t \<in> set (snd (buildMeasureMap ns))" using n by (simp add: buildMeasureMap_times(3))
    show "?t < (?m + 1) * 32" by simp
    show "notesAt ?A ?t \<noteq> []" using here by auto
    show "?m * 32 \<le> ?t" by simp
  qed (rule blk)
  then have "Chord (notesAt ?A ?t) (maxDuration xmlDuration (notesAt ?A ?t)) \<in> set res"
    by (rule timeline_token)
  then have "xmlTimed n \<in> set (chordMembers (xmlVoiceMeasure ns ?m))"
    unfolding r using here by (rule chord_member)
  moreover have "?m < totalMeasures" using tot by (simp add: div_less_iff_less_mult)
  ultimately show ?thesis unfolding xmlEmitted_def by auto
qed

lemma quantized_real:
  assumes "quantized n"
  shows "time n = real (toTicksTime (time n)) / 4"
    and "duration n = real (toTicksDuration (duration n)) / 4"
proof -
  obtain k :: nat where k: "time n = of_nat k / 4"
    using assms max0_quantize_nat[of "time n"] by (auto simp: quantized_def)
  obtain j :: nat where j: "1 \<le> j" "duration n = of_nat j / 4"
    using assms maxgrid_quantize_nat[of "duration n"] by (auto simp: quantized_def)
  show "time n = real (toTicksTime (time n)) / 4"
    unfolding k by (simp only: toTicksTime_grid)
  show "duration n = real (toTicksDuration (duration n)) / 4"
    unfolding j(2) using j(1) by (simp only: toTicksDuration_grid)
qed

lemma noOverlap_ticks:
  assumes q: "\<forall>n\<in>set ns. quantized n" and no: "noOverlap ns"
    and a: "a \<in> set ns" and b: "b \<in> set ns"
    and lt: "toTicksTime (time a) < toTicksTime (time b)"
  shows "toTicksTime (time a) + toTicksDuration (duration a) \<le> toTicksTime (time b)"
proof -
  have qa: "quantized a" and qb: "quantized b" using q a b by auto
  have "time a < time b"
    using lt quantized_real(1)[OF qa] quantized_real(1)[OF qb] by (metis divide_strict_right_mono of_nat_less_iff zero_less_numeral)
  moreover have "\<not> (time a < time b \<and> time b < time a + duration a)"
    using no a b by (auto simp: noOverlap_def list_all_iff)
  ultimately have "time a + duration a \<le> time b" by simp
  then have "real (toTicksTime (time a)) / 4 + real (toTicksDuration (duration a)) / 4
      \<le> real (toTicksTime (time b)) / 4"
    using quantized_real[OF qa] quantized_real(1)[OF qb] by simp
  then have "real (toTicksTime (time a) + toTicksDuration (duration a)) \<le> real (toTicksTime (time b))"
    by simp
  then show ?thesis by (simp only: of_nat_le_iff)
qed

lemma member_le_maxOrZero: "x \<in> set xs \<Longrightarrow> x \<le> maxOrZero xs"
  by (auto simp: maxOrZero_def)

lemma ceil_measures: "g \<le> nat \<lceil>real g / real k\<rceil> * k" if "0 < k" for g k :: nat
proof -
  have h: "real g / real k \<le> real_of_int \<lceil>real g / real k\<rceil>" by linarith
  have "0 < real k" using that by simp
  then have "real g \<le> real_of_int \<lceil>real g / real k\<rceil> * real k"
    using h by (simp only: pos_divide_le_eq)
  moreover have "0 \<le> real g / real k" by simp
  then have "0 \<le> \<lceil>real g / real k\<rceil>" by linarith
  ultimately have "real g \<le> real (nat \<lceil>real g / real k\<rceil> * k)" by simp
  then show ?thesis by (simp only: of_nat_le_iff)
qed

lemma abc_total_covers:
  assumes "n \<in> set (abcRhNotes c) \<or> n \<in> set (abcLhNotes c)"
  shows "toTicksTime (time n) < abcTotalMeasures c * 16"
proof -
  have "abcEndTick n \<le> globalMaxTick c"
    using assms member_le_maxOrZero[of "abcEndTick n" "map abcEndTick (abcRhNotes c)"]
      member_le_maxOrZero[of "abcEndTick n" "map abcEndTick (abcLhNotes c)"]
    by (auto simp: globalMaxTick_def)
  moreover have "1 \<le> toTicksDuration (duration n)" by (simp add: toTicksDuration_def)
  ultimately have "toTicksTime (time n) < globalMaxTick c" by (simp add: abcEndTick_def)
  also have "\<dots> \<le> nat \<lceil>real (globalMaxTick c) / real 16\<rceil> * 16"
    by (rule ceil_measures) simp
  also have "\<dots> \<le> abcTotalMeasures c * 16"
    by (simp add: abcTotalMeasures_def ticksPerMeasure_def beatsPerMeasure_def ticksPerBeat_def)
  finally show ?thesis .
qed

lemma xml_total_covers:
  assumes "n \<in> set (xmlRhNotes c) \<or> n \<in> set (xmlLhNotes c)" and "1 \<le> toTicks (duration n)"
  shows "toTicks (time n) < xmlTotalMeasures c * 32"
proof -
  have "xmlEndTick n \<le> maxTick c"
    using assms(1) member_le_maxOrZero[of "xmlEndTick n" "map xmlEndTick (xmlRhNotes c)"]
      member_le_maxOrZero[of "xmlEndTick n" "map xmlEndTick (xmlLhNotes c)"]
    by (auto simp: maxTick_def)
  then have "toTicks (time n) < maxTick c" using assms(2) by (simp add: xmlEndTick_def)
  also have "\<dots> \<le> nat \<lceil>real (maxTick c) / real 32\<rceil> * 32"
    by (rule ceil_measures) simp
  also have "\<dots> \<le> xmlTotalMeasures c * 32"
    by (simp add: xmlTotalMeasures_def TICKS_PER_MEASURE_def DIVISIONS_def BEATS_PER_MEASURE_def)
  finally show ?thesis .
qed

lemma abc_voice_emitted:
  assumes q: "\<forall>n\<in>set NX. quantized n" and no: "noOverlap NX"
    and n: "n \<in> set (map normalizeNote NX)"
    and tot: "toTicksTime (time n) < totalMeasures * 16"
  shows "timed n \<in> set (abcEmitted (map normalizeNote NX) totalMeasures)"
proof (rule abc_emits[OF _ n tot], intro ballI impI)
  fix a b
  assume "a \<in> set (map normalizeNote NX)" "b \<in> set (map normalizeNote NX)"
    and lt: "toTicksTime (time a) < toTicksTime (time b)"
  then obtain a' b' where a': "a' \<in> set NX" "a = normalizeNote a'"
    and b': "b' \<in> set NX" "b = normalizeNote b'" by auto
  have ta: "time a = time a'" "duration a = duration a'"
    using quantized_normalize[of a'] q a' by auto
  have tb: "time b = time b'" using quantized_normalize[of b'] q b' by auto
  show "toTicksTime (time a) + toTicksDuration (duration a) \<le> toTicksTime (time b)"
    unfolding ta tb using noOverlap_ticks[OF q no a'(1) b'(1)] lt ta tb by simp
qed

lemma xml_voice_emitted:
  assumes q: "\<forall>n\<in>set NX. quantized n" and no: "noOverlap NX"
    and n: "n \<in> set NX" and tot: "toTicks (time n) < totalMeasures * 32"
  shows "xmlTimed n \<in> set (xmlEmitted NX totalMeasures)"
proof (rule xml_emits[OF _ n tot], intro ballI impI)
  fix a b
  assume a: "a \<in> set NX" and b: "b \<in> set NX" and lt: "toTicks (time a) < toTicks (time b)"
  have qa: "quantized a" and qb: "quantized b" using q a b by auto
  have "toTicksTime (time a) < toTicksTime (time b)"
    using lt quantized_ticks(1)[OF qa] quantized_ticks(1)[OF qb] by simp
  then have "toTicksTime (time a) + toTicksDuration (duration a) \<le> toTicksTime (time b)"
    by (rule noOverlap_ticks[OF q no a b])
  moreover have "1 \<le> toTicksDuration (duration a)" by (simp add: toTicksDuration_def)
  ultimately show "toTicks (time a) + max 1 (toTicks (duration a)) \<le> toTicks (time b)"
    using quantized_ticks[OF qa] quantized_ticks(1)[OF qb] by simp
qed

text \<open>
  Claim C3, amended. For a composition of quantized notes in which no note of a voice
  begins strictly inside another note of the same voice, every note of either voice
  is a member of a chord token of some measure, in both encoders.
\<close>

theorem separated_notes_all_emitted:
  assumes q: "\<forall>n\<in>set (allNotes (tracks c)). quantized n"
    and nr: "noOverlap (xmlRhNotes c)" and nl: "noOverlap (xmlLhNotes c)"
  shows "(\<forall>n\<in>set (abcRhNotes c). timed n \<in> set (abcEmitted (abcRhNotes c) (abcTotalMeasures c)))
    \<and> (\<forall>n\<in>set (abcLhNotes c). timed n \<in> set (abcEmitted (abcLhNotes c) (abcTotalMeasures c)))
    \<and> (\<forall>n\<in>set (xmlRhNotes c). xmlTimed n \<in> set (xmlEmitted (xmlRhNotes c) (xmlTotalMeasures c)))
    \<and> (\<forall>n\<in>set (xmlLhNotes c). xmlTimed n \<in> set (xmlEmitted (xmlLhNotes c) (xmlTotalMeasures c)))"
proof -
  have qr: "\<forall>n\<in>set (xmlRhNotes c). quantized n"
    using q xml_voice_subset(1)[of c] by blast
  have ql: "\<forall>n\<in>set (xmlLhNotes c). quantized n"
    using q xml_voice_subset(2)[of c] by blast
  have d: "\<And>n. quantized n \<Longrightarrow> 1 \<le> toTicks (duration n)"
  proof -
    fix n assume "quantized n"
    moreover have "1 \<le> toTicksDuration (duration n)" by (simp add: toTicksDuration_def)
    ultimately show "1 \<le> toTicks (duration n)" using quantized_ticks(2)[of n] by simp
  qed
  have 1: "\<forall>n\<in>set (abcRhNotes c). timed n \<in> set (abcEmitted (abcRhNotes c) (abcTotalMeasures c))"
  proof
    fix n assume n: "n \<in> set (abcRhNotes c)"
    then have "toTicksTime (time n) < abcTotalMeasures c * 16" by (simp add: abc_total_covers)
    then show "timed n \<in> set (abcEmitted (abcRhNotes c) (abcTotalMeasures c))"
      using n unfolding abc_of_xml_rh[OF q] by (intro abc_voice_emitted[OF qr nr])
  qed
  have 2: "\<forall>n\<in>set (abcLhNotes c). timed n \<in> set (abcEmitted (abcLhNotes c) (abcTotalMeasures c))"
  proof
    fix n assume n: "n \<in> set (abcLhNotes c)"
    then have "toTicksTime (time n) < abcTotalMeasures c * 16" by (simp add: abc_total_covers)
    then show "timed n \<in> set (abcEmitted (abcLhNotes c) (abcTotalMeasures c))"
      using n unfolding abc_of_xml_lh[OF q] by (intro abc_voice_emitted[OF ql nl])
  qed
  have 3: "\<forall>n\<in>set (xmlRhNotes c). xmlTimed n \<in> set (xmlEmitted (xmlRhNotes c) (xmlTotalMeasures c))"
  proof
    fix n assume n: "n \<in> set (xmlRhNotes c)"
    then have "toTicks (time n) < xmlTotalMeasures c * 32"
      using qr d by (intro xml_total_covers) auto
    then show "xmlTimed n \<in> set (xmlEmitted (xmlRhNotes c) (xmlTotalMeasures c))"
      using n by (intro xml_voice_emitted[OF qr nr])
  qed
  have 4: "\<forall>n\<in>set (xmlLhNotes c). xmlTimed n \<in> set (xmlEmitted (xmlLhNotes c) (xmlTotalMeasures c))"
  proof
    fix n assume n: "n \<in> set (xmlLhNotes c)"
    then have "toTicks (time n) < xmlTotalMeasures c * 32"
      using ql d by (intro xml_total_covers) auto
    then show "xmlTimed n \<in> set (xmlEmitted (xmlLhNotes c) (xmlTotalMeasures c))"
      using n by (intro xml_voice_emitted[OF ql nl])
  qed
  show ?thesis using 1 2 3 4 by blast
qed

lemma walks_measure:
  assumes w: "walks durOf byTime ts e c res" and pos: "positive durOf byTime"
    and srt: "sorted ts" and keys: "\<And>s. (s \<in> set ts) = (notesAt byTime s \<noteq> [])"
    and ce: "c < e"
  shows "(\<forall>(p, tok)\<in>set (timeline c res). p < e \<and> tokenFits durOf (notesAt byTime) e p tok)
    \<and> sorted_wrt (<) (map fst (timeline c res))
    \<and> (\<forall>(p, tok)\<in>set (timeline c res). \<not> sounding p (timeline c res))
    \<and> e \<le> c + sum_list (map tokenLen res)
    \<and> (notesAt byTime c \<noteq> [] \<longrightarrow>
          hd res = Chord (notesAt byTime c) (maxDuration durOf (notesAt byTime c)))
    \<and> (\<forall>t\<in>{c..<e}. notesAt byTime t \<noteq> [] \<longrightarrow>
          (t, Chord (notesAt byTime t) (maxDuration durOf (notesAt byTime t)))
             \<in> set (timeline c res)
          \<or> sounding t (timeline c res))"
proof -
  have 1: "\<forall>(p, tok)\<in>set (timeline c res). p < e \<and> tokenFits durOf (notesAt byTime) e p tok"
    using walks_tokens[OF srt keys w] by auto
  have 2: "sorted_wrt (<) (map fst (timeline c res))"
    by (rule walks_increasing[OF pos w])
  have 3: "\<forall>(p, tok)\<in>set (timeline c res). \<not> sounding p (timeline c res)"
    using timeline_apart by fastforce
  have 4: "e \<le> c + sum_list (map tokenLen res)"
    by (rule walks_end[OF w])
  have 5: "notesAt byTime c \<noteq> [] \<longrightarrow>
          hd res = Chord (notesAt byTime c) (maxDuration durOf (notesAt byTime c))"
    using walks_first[OF w ce] by auto
  have 6: "\<forall>t\<in>{c..<e}. notesAt byTime t \<noteq> [] \<longrightarrow>
          (t, Chord (notesAt byTime t) (maxDuration durOf (notesAt byTime t)))
             \<in> set (timeline c res)
          \<or> sounding t (timeline c res)"
  proof (intro ballI impI)
    fix t assume t: "t \<in> {c..<e}" and here: "notesAt byTime t \<noteq> []"
    have "t \<in> set ts" using keys here by simp
    then show "(t, Chord (notesAt byTime t) (maxDuration durOf (notesAt byTime t)))
             \<in> set (timeline c res)
          \<or> sounding t (timeline c res)"
      using t here by (intro walks_cover[OF srt _ _ here w]) auto
  qed
  show ?thesis using 1 2 3 4 5 6 by blast
qed

lemma buildTimeMap_keys:
  "(s \<in> set (snd (buildTimeMap ns))) = (notesAt (fst (buildTimeMap ns)) s \<noteq> [])"
  by (auto simp: buildTimeMap_times(3) buildTimeMap_notes abcOnset_def filter_empty_conv)

lemma buildMeasureMap_keys:
  "(s \<in> set (snd (buildMeasureMap ns))) = (notesAt (fst (buildMeasureMap ns)) s \<noteq> [])"
  by (auto simp: buildMeasureMap_times(3) buildMeasureMap_notes xmlOnset_def filter_empty_conv)

lemma buildTimeMap_onset: "notesAt (fst (buildTimeMap ns)) = abcOnset ns"
  by (rule ext) (rule buildTimeMap_notes)

lemma buildMeasureMap_onset: "notesAt (fst (buildMeasureMap ns)) = xmlOnset ns"
  by (rule ext) (rule buildMeasureMap_notes)

text \<open>
  Claim C4, amended. In every measure of a voice, in both encoders, the tokens are as
  follows, the tick of a token being the cursor at which it is appended: the first
  token stands at the first tick of the measure, each next one where the token before
  it ends. Each chord token holds exactly the notes of the voice that begin at its
  tick, all of them, and its length is the longest of their lengths; a rest stands only
  at a tick where no note begins, and lasts to the next tick of the measure at which a
  note begins, or to the end of the measure. The ticks of the tokens increase
  strictly, so no tick has two tokens, and no token begins while a chord token still
  sounds: notes that sound together are never split. The tokens reach the end of the
  measure. When notes begin at the first tick of the measure, they are its first
  token. And the notes that begin together at any tick of the measure are one chord
  token at that tick, unless a chord token begun earlier in the measure still sounds
  there; then, by the above, no token holds them.
\<close>

theorem onset_is_one_token:
  "(\<exists>toks. abcVoiceMeasure ns m = Some toks
      \<and> (\<forall>(p, tok)\<in>set (timeline (m * 16) toks).
            p < (m + 1) * 16 \<and> tokenFits durationTicks (abcOnset ns) ((m + 1) * 16) p tok)
      \<and> sorted_wrt (<) (map fst (timeline (m * 16) toks))
      \<and> (\<forall>(p, tok)\<in>set (timeline (m * 16) toks). \<not> sounding p (timeline (m * 16) toks))
      \<and> (m + 1) * 16 \<le> m * 16 + sum_list (map tokenLen toks)
      \<and> (abcOnset ns (m * 16) \<noteq> [] \<longrightarrow>
            hd toks = Chord (abcOnset ns (m * 16)) (maxDuration durationTicks (abcOnset ns (m * 16))))
      \<and> (\<forall>t\<in>{m * 16..<(m + 1) * 16}. abcOnset ns t \<noteq> [] \<longrightarrow>
            (t, Chord (abcOnset ns t) (maxDuration durationTicks (abcOnset ns t)))
               \<in> set (timeline (m * 16) toks)
            \<or> sounding t (timeline (m * 16) toks)))
   \<and> (\<exists>toks. xmlVoiceMeasure ns m = Some toks
      \<and> (\<forall>(p, tok)\<in>set (timeline (m * 32) toks).
            p < (m + 1) * 32 \<and> tokenFits xmlDuration (xmlOnset ns) ((m + 1) * 32) p tok)
      \<and> sorted_wrt (<) (map fst (timeline (m * 32) toks))
      \<and> (\<forall>(p, tok)\<in>set (timeline (m * 32) toks). \<not> sounding p (timeline (m * 32) toks))
      \<and> (m + 1) * 32 \<le> m * 32 + sum_list (map tokenLen toks)
      \<and> (xmlOnset ns (m * 32) \<noteq> [] \<longrightarrow>
            hd toks = Chord (xmlOnset ns (m * 32)) (maxDuration xmlDuration (xmlOnset ns (m * 32))))
      \<and> (\<forall>t\<in>{m * 32..<(m + 1) * 32}. xmlOnset ns t \<noteq> [] \<longrightarrow>
            (t, Chord (xmlOnset ns t) (maxDuration xmlDuration (xmlOnset ns t)))
               \<in> set (timeline (m * 32) toks)
            \<or> sounding t (timeline (m * 32) toks)))"
proof
  obtain res where r: "abcVoiceMeasure ns m = Some res"
    and w: "walks durationTicks (fst (buildTimeMap ns)) (snd (buildTimeMap ns)) ((m + 1) * 16) (m * 16) res"
    unfolding abcVoiceMeasure_def by (rule abcRenderMeasure_walks)
  show "\<exists>toks. abcVoiceMeasure ns m = Some toks
      \<and> (\<forall>(p, tok)\<in>set (timeline (m * 16) toks).
            p < (m + 1) * 16 \<and> tokenFits durationTicks (abcOnset ns) ((m + 1) * 16) p tok)
      \<and> sorted_wrt (<) (map fst (timeline (m * 16) toks))
      \<and> (\<forall>(p, tok)\<in>set (timeline (m * 16) toks). \<not> sounding p (timeline (m * 16) toks))
      \<and> (m + 1) * 16 \<le> m * 16 + sum_list (map tokenLen toks)
      \<and> (abcOnset ns (m * 16) \<noteq> [] \<longrightarrow>
            hd toks = Chord (abcOnset ns (m * 16)) (maxDuration durationTicks (abcOnset ns (m * 16))))
      \<and> (\<forall>t\<in>{m * 16..<(m + 1) * 16}. abcOnset ns t \<noteq> [] \<longrightarrow>
            (t, Chord (abcOnset ns t) (maxDuration durationTicks (abcOnset ns t)))
               \<in> set (timeline (m * 16) toks)
            \<or> sounding t (timeline (m * 16) toks))"
    using r walks_measure[OF w positive_buildTimeMap buildTimeMap_times(1) buildTimeMap_keys]
    unfolding buildTimeMap_onset by (intro exI[of _ res]) simp
next
  obtain res where r: "xmlVoiceMeasure ns m = Some res"
    and w: "walks xmlDuration (fst (buildMeasureMap ns)) (snd (buildMeasureMap ns)) ((m + 1) * 32) (m * 32) res"
    unfolding xmlVoiceMeasure_def by (rule xmlRenderMeasure_walks)
  show "\<exists>toks. xmlVoiceMeasure ns m = Some toks
      \<and> (\<forall>(p, tok)\<in>set (timeline (m * 32) toks).
            p < (m + 1) * 32 \<and> tokenFits xmlDuration (xmlOnset ns) ((m + 1) * 32) p tok)
      \<and> sorted_wrt (<) (map fst (timeline (m * 32) toks))
      \<and> (\<forall>(p, tok)\<in>set (timeline (m * 32) toks). \<not> sounding p (timeline (m * 32) toks))
      \<and> (m + 1) * 32 \<le> m * 32 + sum_list (map tokenLen toks)
      \<and> (xmlOnset ns (m * 32) \<noteq> [] \<longrightarrow>
            hd toks = Chord (xmlOnset ns (m * 32)) (maxDuration xmlDuration (xmlOnset ns (m * 32))))
      \<and> (\<forall>t\<in>{m * 32..<(m + 1) * 32}. xmlOnset ns t \<noteq> [] \<longrightarrow>
            (t, Chord (xmlOnset ns t) (maxDuration xmlDuration (xmlOnset ns t)))
               \<in> set (timeline (m * 32) toks)
            \<or> sounding t (timeline (m * 32) toks))"
    using r walks_measure[OF w positive_buildMeasureMap buildMeasureMap_times(1) buildMeasureMap_keys]
    unfolding buildMeasureMap_onset by (intro exI[of _ res]) simp
qed

text \<open>
  The theorem of claim C1 at a composition with a chord at beat 0 and a bass note at
  beat 2: 32 measures against 1, and the same events in the first measure.
\<close>

theorem encoders_agree_on_quantized_witness:
  "list_all quantized (allNotes (tracks chordComposition))
   \<and> abcTotalMeasures chordComposition = 32 \<and> xmlTotalMeasures chordComposition = 1
   \<and> map_option (events ticksPerBeat 0) (abcVoiceMeasure (abcRhNotes chordComposition) 0)
        = Some [(0, Some [60, 64], 2), (2, None, 2)]
   \<and> map_option (events DIVISIONS 0) (xmlVoiceMeasure (xmlRhNotes chordComposition) 0)
        = Some [(0, Some [60, 64], 2), (2, None, 2)]
   \<and> (\<exists>ta tx. abcVoiceMeasure (abcLhNotes chordComposition) 0 = Some ta
          \<and> xmlVoiceMeasure (xmlLhNotes chordComposition) 0 = Some tx
          \<and> events ticksPerBeat 0 ta = events DIVISIONS 0 tx)"
proof -
  have h: "\<forall>n\<in>set (allNotes (tracks chordComposition)). quantized n"
    by code_simp
  have v: "abcTotalMeasures chordComposition = 32" "xmlTotalMeasures chordComposition = 1"
    "map_option (events ticksPerBeat 0) (abcVoiceMeasure (abcRhNotes chordComposition) 0)
        = Some [(0, Some [60, 64], 2), (2, None, 2)]"
    "map_option (events DIVISIONS 0) (xmlVoiceMeasure (xmlRhNotes chordComposition) 0)
        = Some [(0, Some [60, 64], 2), (2, None, 2)]"
    by code_simp+
  from encoders_agree_on_quantized [OF h, of 0] h v show ?thesis
    unfolding list_all_iff by blast
qed

text \<open>
  Claim C1 as stated fails. With no track at all the Notation-Text encoder counts 32
  measures, the Score-XML encoder 1. With a note at beat \<open>1/8\<close> the first rest of
  the Notation-Text encoder lasts a quarter of a beat, that of the Score-XML encoder
  an eighth: the first normalizes to the quarter-beat grid, the second rounds to an
  eighth of a beat.
\<close>

theorem encoders_disagree_counterexample:
  "abcTotalMeasures (mkComposition []) \<noteq> xmlTotalMeasures (mkComposition [])
   \<and> map_option (events ticksPerBeat 0) (abcVoiceMeasure (abcRhNotes offGridComposition) 0)
       \<noteq> map_option (events DIVISIONS 0) (xmlVoiceMeasure (xmlRhNotes offGridComposition) 0)"
  by code_simp

text \<open>
  The theorem of claim C3 at three notes that do not overlap: both encoders hold all
  of them.
\<close>

theorem separated_notes_all_emitted_witness:
  "list_all quantized (allNotes (tracks scaleComposition))
   \<and> noOverlap (xmlRhNotes scaleComposition) \<and> noOverlap (xmlLhNotes scaleComposition)
   \<and> list_all
        (\<lambda>n. timed n \<in> set (abcEmitted (abcRhNotes scaleComposition) (abcTotalMeasures scaleComposition)))
        (abcRhNotes scaleComposition)
   \<and> list_all
        (\<lambda>n. xmlTimed n \<in> set (xmlEmitted (xmlLhNotes scaleComposition) (xmlTotalMeasures scaleComposition)))
        (xmlLhNotes scaleComposition)
   \<and> map pitch (abcEmitted (abcRhNotes scaleComposition) (abcTotalMeasures scaleComposition))
        = [60, 64]"
proof -
  have h: "\<forall>n\<in>set (allNotes (tracks scaleComposition)). quantized n"
    "noOverlap (xmlRhNotes scaleComposition)" "noOverlap (xmlLhNotes scaleComposition)"
    by code_simp+
  have v: "map pitch (abcEmitted (abcRhNotes scaleComposition) (abcTotalMeasures scaleComposition))
        = [60, 64]"
    by code_simp
  from separated_notes_all_emitted [OF h] h v show ?thesis
    unfolding list_all_iff by blast
qed

text \<open>
  Claim C3 as stated fails. A note of two beats at beat 0 and a note of one beat at
  beat 1, both in the upper voice: the second is in the voice of each encoder and in no
  token of either; the cursor passes from tick 0 to the end of the longer note.
\<close>

theorem inner_note_dropped_counterexample:
  "mkNote 64 1 1 \<in> set (abcRhNotes overlapComposition)
   \<and> timed (mkNote 64 1 1)
       \<notin> set (abcEmitted (abcRhNotes overlapComposition) (abcTotalMeasures overlapComposition))
   \<and> mkNote 64 1 1 \<in> set (xmlRhNotes overlapComposition)
   \<and> xmlTimed (mkNote 64 1 1)
       \<notin> set (xmlEmitted (xmlRhNotes overlapComposition) (xmlTotalMeasures overlapComposition))"
  by code_simp

text \<open>
  The theorem of claim C4 at the example of the specification: notes of one and of two
  beats at beat 0 are one token of two beats, 8 ticks in one encoder and 16 in the
  other, and a rest fills the measure; the text of the measure is a chord of four
  eighths and a rest of four eighths. And at the same two notes at beat 1: a rest of
  one beat, the one token of two beats at tick 4, and a rest of one beat.
\<close>

theorem onset_is_one_token_witness:
  "abcOnset chordVoice (0 * 16) \<noteq> [] \<and> xmlOnset chordVoice (0 * 32) \<noteq> []
   \<and> abcVoiceMeasure chordVoice 0
        = Some [Chord [timed (mkNote 60 0 1), timed (mkNote 64 0 2)] 8, Rest 8]
   \<and> xmlVoiceMeasure chordVoice 0
        = Some [Chord [xmlTimed (mkNote 60 0 1), xmlTimed (mkNote 64 0 2)] 16, Rest 16]
   \<and> abcMeasureText (fst (buildTimeMap chordVoice)) (snd (buildTimeMap chordVoice)) 0
        = Some ''[CE]4 z4 ''
   \<and> list_all (\<lambda>(p, tok). p < (0 + 1) * 16
          \<and> tokenFits durationTicks (abcOnset chordVoice) ((0 + 1) * 16) p tok)
        (timeline (0 * 16) [Chord [timed (mkNote 60 0 1), timed (mkNote 64 0 2)] 8, Rest 8])
   \<and> abcVoiceMeasure lateChordVoice 0
        = Some [Rest 4, Chord [timed (mkNote 60 1 1), timed (mkNote 64 1 2)] 8, Rest 4]
   \<and> xmlVoiceMeasure lateChordVoice 0
        = Some [Rest 8, Chord [xmlTimed (mkNote 60 1 1), xmlTimed (mkNote 64 1 2)] 16, Rest 8]
   \<and> list_all (\<lambda>(p, tok). p < (0 + 1) * 16
          \<and> tokenFits durationTicks (abcOnset lateChordVoice) ((0 + 1) * 16) p tok)
        (timeline (0 * 16)
           [Rest 4, Chord [timed (mkNote 60 1 1), timed (mkNote 64 1 2)] 8, Rest 4])
   \<and> list_all (\<lambda>(p, tok). p < (0 + 1) * 32
          \<and> tokenFits xmlDuration (xmlOnset lateChordVoice) ((0 + 1) * 32) p tok)
        (timeline (0 * 32)
           [Rest 8, Chord [xmlTimed (mkNote 60 1 1), xmlTimed (mkNote 64 1 2)] 16, Rest 8])"
proof -
  have v: "abcOnset chordVoice (0 * 16) \<noteq> []" "xmlOnset chordVoice (0 * 32) \<noteq> []"
    "abcVoiceMeasure chordVoice 0
        = Some [Chord [timed (mkNote 60 0 1), timed (mkNote 64 0 2)] 8, Rest 8]"
    "xmlVoiceMeasure chordVoice 0
        = Some [Chord [xmlTimed (mkNote 60 0 1), xmlTimed (mkNote 64 0 2)] 16, Rest 16]"
    "abcMeasureText (fst (buildTimeMap chordVoice)) (snd (buildTimeMap chordVoice)) 0
        = Some ''[CE]4 z4 ''"
    by code_simp+
  have l: "abcVoiceMeasure lateChordVoice 0
        = Some [Rest 4, Chord [timed (mkNote 60 1 1), timed (mkNote 64 1 2)] 8, Rest 4]"
    "xmlVoiceMeasure lateChordVoice 0
        = Some [Rest 8, Chord [xmlTimed (mkNote 60 1 1), xmlTimed (mkNote 64 1 2)] 16, Rest 8]"
    by code_simp+
  have a: "\<forall>(p, tok)\<in>set (timeline (0 * 16)
               [Chord [timed (mkNote 60 0 1), timed (mkNote 64 0 2)] 8, Rest 8]).
             p < (0 + 1) * 16 \<and> tokenFits durationTicks (abcOnset chordVoice) ((0 + 1) * 16) p tok"
    using onset_is_one_token [of chordVoice 0, THEN conjunct1] unfolding v(3) by blast
  have b: "\<forall>(p, tok)\<in>set (timeline (0 * 16)
               [Rest 4, Chord [timed (mkNote 60 1 1), timed (mkNote 64 1 2)] 8, Rest 4]).
             p < (0 + 1) * 16
             \<and> tokenFits durationTicks (abcOnset lateChordVoice) ((0 + 1) * 16) p tok"
    using onset_is_one_token [of lateChordVoice 0, THEN conjunct1] unfolding l(1) by blast
  have c: "\<forall>(p, tok)\<in>set (timeline (0 * 32)
               [Rest 8, Chord [xmlTimed (mkNote 60 1 1), xmlTimed (mkNote 64 1 2)] 16, Rest 8]).
             p < (0 + 1) * 32
             \<and> tokenFits xmlDuration (xmlOnset lateChordVoice) ((0 + 1) * 32) p tok"
    using onset_is_one_token [of lateChordVoice 0, THEN conjunct2] unfolding l(2) by blast
  from v l a b c show ?thesis unfolding list_all_iff by blast
qed

text \<open>
  Claim C4 as stated fails. Two notes begin together at beat 1 while a note of two
  beats, begun at beat 0, still sounds: the two are the notes of tick 4, yet the only
  token of the only measure that could hold them is the long note, followed by a rest.
  No token holds them, in either encoder.
\<close>

theorem hidden_chord_counterexample:
  "abcOnset hiddenChordVoice 4 = [timed (mkNote 64 1 1), timed (mkNote 67 1 (1 / 2))]
   \<and> abcVoiceMeasure hiddenChordVoice 0 = Some [Chord [timed (mkNote 60 0 2)] 8, Rest 8]
   \<and> abcEmitted hiddenChordVoice 32 = [timed (mkNote 60 0 2)]
   \<and> xmlOnset hiddenChordVoice 8 = [xmlTimed (mkNote 64 1 1), xmlTimed (mkNote 67 1 (1 / 2))]
   \<and> xmlVoiceMeasure hiddenChordVoice 0 = Some [Chord [xmlTimed (mkNote 60 0 2)] 16, Rest 16]
   \<and> xmlEmitted hiddenChordVoice 1 = [xmlTimed (mkNote 60 0 2)]"
  by code_simp

section \<open>Tempo from the style: proofs\<close>

lemma mod_range: "lo \<le> hi \<Longrightarrow> lo + h mod (hi - lo + 1) \<le> (hi::nat)"
proof -
  assume "lo \<le> hi"
  have "h mod (hi - lo + 1) < hi - lo + 1" by simp
  then show ?thesis using \<open>lo \<le> hi\<close> by linarith
qed

lemma styleRange_ordered: "fst (styleRange key) \<le> snd (styleRange key)"
  by (simp add: styleRange_def)

text \<open>
  Claim C9. \<open>tempoFromStyle\<close> is a function of the style and the title and of
  nothing else: it is the lower bound of the range that the lowered style selects, plus
  the hash of \<open>key|title\<close> modulo the width of the range, so equal pairs give
  equal tempos; no state and no random draw enters it. The result lies in the selected
  range, which is \<open>[72, 96]\<close> when the lowered style contains \<open>bach\<close> or
  \<open>baroque\<close>, else \<open>[60, 84]\<close> for \<open>chopin\<close> or \<open>romantic\<close>, else
  \<open>[90, 120]\<close> for \<open>jazz\<close>, and \<open>[84, 120]\<close> when it contains none of the five
  keywords. This holds whatever \<open>toLowerCase\<close> does.
\<close>

theorem tempoFromStyle_range:
  "fst (styleRange (lower s)) \<le> tempoFromStyle lower s t
   \<and> tempoFromStyle lower s t \<le> snd (styleRange (lower s))
   \<and> tempoFromStyle lower s t
       = fst (styleRange (lower s))
         + hashString (lower s @ ascii ''|'' @ (case t of None \<Rightarrow> [] | Some x \<Rightarrow> x))
             mod (snd (styleRange (lower s)) - fst (styleRange (lower s)) + 1)
   \<and> (includes' (lower s) (ascii ''bach'') \<or> includes' (lower s) (ascii ''baroque'')
        \<longrightarrow> styleRange (lower s) = (72, 96))
   \<and> (\<not> includes' (lower s) (ascii ''bach'') \<and> \<not> includes' (lower s) (ascii ''baroque'')
        \<and> (includes' (lower s) (ascii ''chopin'') \<or> includes' (lower s) (ascii ''romantic''))
        \<longrightarrow> styleRange (lower s) = (60, 84))
   \<and> (\<not> includes' (lower s) (ascii ''bach'') \<and> \<not> includes' (lower s) (ascii ''baroque'')
        \<and> \<not> includes' (lower s) (ascii ''chopin'') \<and> \<not> includes' (lower s) (ascii ''romantic'')
        \<and> includes' (lower s) (ascii ''jazz'')
        \<longrightarrow> styleRange (lower s) = (90, 120))
   \<and> (\<not> includes' (lower s) (ascii ''bach'') \<and> \<not> includes' (lower s) (ascii ''baroque'')
        \<and> \<not> includes' (lower s) (ascii ''chopin'') \<and> \<not> includes' (lower s) (ascii ''romantic'')
        \<and> \<not> includes' (lower s) (ascii ''jazz'')
        \<longrightarrow> styleRange (lower s) = (84, 120))
   \<and> (s = s2 \<and> t = t2 \<longrightarrow> tempoFromStyle lower s t = tempoFromStyle lower s2 t2)"
proof -
  have e: "tempoFromStyle lower s t
       = fst (styleRange (lower s))
         + hashString (lower s @ ascii ''|'' @ (case t of None \<Rightarrow> [] | Some x \<Rightarrow> x))
             mod (snd (styleRange (lower s)) - fst (styleRange (lower s)) + 1)"
    by (simp add: tempoFromStyle_def Let_def split_beta)
  have u: "tempoFromStyle lower s t \<le> snd (styleRange (lower s))"
    unfolding e by (rule mod_range[OF styleRange_ordered])
  have l: "fst (styleRange (lower s)) \<le> tempoFromStyle lower s t"
    unfolding e by simp
  show ?thesis using e u l by (simp add: styleRange_def)
qed

text \<open>
  The theorem at the style \<open>Bach\<close> and at the style \<open>ZZZZZZZ\<close>, both without a
  title. The hash of \<open>zzzzzzz|\<close> is negative before \<open>Math.abs\<close>.
\<close>

lemma asciiLower_samples:
  "asciiLower (ascii ''Bach'') = ascii ''bach''"
  "asciiLower (ascii ''ZZZZZZZ'') = ascii ''zzzzzzz''"
  by (simp_all add: ascii_def asciiLower_def)

lemma hashString_samples:
  "hashString (ascii ''bach'' @ ascii ''|'') = 93493272"
  "hashString (ascii ''zzzzzzz'' @ ascii ''|'') = 1910022910"
  by (simp_all add: ascii_def hashString_def hashStep_def)

lemma includes_samples:
  "includes' (ascii ''bach'') (ascii ''bach'')"
  "\<not> includes' (ascii ''zzzzzzz'') (ascii ''bach'')"
  "\<not> includes' (ascii ''zzzzzzz'') (ascii ''baroque'')"
  "\<not> includes' (ascii ''zzzzzzz'') (ascii ''chopin'')"
  "\<not> includes' (ascii ''zzzzzzz'') (ascii ''romantic'')"
  "\<not> includes' (ascii ''zzzzzzz'') (ascii ''jazz'')"
  by (simp_all add: ascii_def)

theorem tempoFromStyle_range_witness:
  "includes' (asciiLower (ascii ''Bach'')) (ascii ''bach'')
   \<and> styleRange (asciiLower (ascii ''Bach'')) = (72, 96)
   \<and> tempoFromStyle asciiLower (ascii ''Bach'') None = 94
   \<and> \<not> includes' (asciiLower (ascii ''ZZZZZZZ'')) (ascii ''bach'')
   \<and> \<not> includes' (asciiLower (ascii ''ZZZZZZZ'')) (ascii ''baroque'')
   \<and> \<not> includes' (asciiLower (ascii ''ZZZZZZZ'')) (ascii ''chopin'')
   \<and> \<not> includes' (asciiLower (ascii ''ZZZZZZZ'')) (ascii ''romantic'')
   \<and> \<not> includes' (asciiLower (ascii ''ZZZZZZZ'')) (ascii ''jazz'')
   \<and> styleRange (asciiLower (ascii ''ZZZZZZZ'')) = (84, 120)
   \<and> tempoFromStyle asciiLower (ascii ''ZZZZZZZ'') None = 114"
  using tempoFromStyle_range [of asciiLower "ascii ''Bach''" None "ascii ''Bach''" None]
    tempoFromStyle_range [of asciiLower "ascii ''ZZZZZZZ''" None "ascii ''ZZZZZZZ''" None]
  by (simp add: asciiLower_samples hashString_samples includes_samples)


section \<open>Notes from a pitch track: proofs\<close>

lemma pitchLoop_append: "pitchLoop sub (xs @ ys) st = pitchLoop sub ys (pitchLoop sub xs st)"
proof (induction xs arbitrary: st)
  case Nil
  then show ?case by simp
next
  case (Cons f xs)
  obtain ns cm s where st: "st = (ns, cm, s)" by (cases st) auto
  show ?case unfolding st using Cons by simp
qed

lemma pitchLoop_same:
  "\<forall>f\<in>set fs. midi f = cm \<Longrightarrow> pitchLoop sub fs (ns, cm, s) = (ns, cm, s)"
  by (induction fs) auto

lemma pitchLoop_current:
  "fs \<noteq> [] \<Longrightarrow> fst (snd (pitchLoop sub fs (ns, cm, s))) = midi (last fs)"
proof (induction fs arbitrary: ns cm s)
  case Nil
  then show ?case by simp
next
  case (Cons f fs)
  then show ?case by (cases "fs = []") auto
qed

lemma pitchLoop_times:
  "(cm \<noteq> None \<longrightarrow> s \<in> S) \<Longrightarrow> time ` set ns \<subseteq> S \<Longrightarrow>
     time ` set (fst (pitchLoop sub fs (ns, cm, s))) \<subseteq> S \<union> atTime ` set (butlast fs)"
proof (induction fs arbitrary: ns cm s S)
  case Nil
  then show ?case by auto
next
  case (Cons f fs)
  show ?case
  proof (cases "midi f = cm")
    case True
    then show ?thesis using Cons.IH[OF Cons.prems] Cons.prems(2)
      by (cases "fs = []") (auto simp: image_subset_iff)
  next
    case False
    let ?ns = "case cm of None \<Rightarrow> ns
          | Some p \<Rightarrow> if MIN_NOTE_SECONDS \<le> sub (atTime f) s
              then ns @ [closedNote p s (sub (atTime f) s)]
              else ns"
    have n: "time ` set ?ns \<subseteq> S"
      using Cons.prems by (auto simp: closedNote_def split: option.splits)
    have "time ` set (fst (pitchLoop sub fs (?ns, midi f, atTime f)))
        \<subseteq> (S \<union> {atTime f}) \<union> atTime ` set (butlast fs)"
      using n by (intro Cons.IH) auto
    moreover have "fs = [] \<Longrightarrow> time ` set (fst (pitchLoop sub fs (?ns, midi f, atTime f))) \<subseteq> S"
      using n by simp
    moreover have "pitchLoop sub (f # fs) (ns, cm, s) = pitchLoop sub fs (?ns, midi f, atTime f)"
      using False by (simp add: closedNote_def split: option.splits)
    ultimately show ?thesis by (cases "fs = []") auto
  qed
qed

lemma final_segment_parts:
  assumes seg: "seg \<noteq> []" and same: "\<forall>f\<in>set seg. midi f = Some p"
    and maximal: "pre = [] \<or> midi (last pre) \<noteq> Some p"
  shows "buildNotesFromPitchTrack sub (pre @ seg) = buildNotesFromPitchTrack sub (pre @ [hd seg])"
    and "snd (pitchLoop sub (pre @ seg) ([], None, 0)) = (Some p, atTime (hd seg))"
    and "sorted_wrt (<) (map atTime (pre @ seg)) \<longrightarrow>
           (\<forall>n\<in>set (buildNotesFromPitchTrack sub (pre @ seg)). time n < atTime (hd seg))"
    and "midi g \<noteq> Some p \<longrightarrow>
           buildNotesFromPitchTrack sub (pre @ seg @ [g])
             = buildNotesFromPitchTrack sub (pre @ seg)
               @ (if MIN_NOTE_SECONDS \<le> sub (atTime g) (atTime (hd seg))
                  then [closedNote p (atTime (hd seg)) (sub (atTime g) (atTime (hd seg)))]
                  else [])"
proof -
  obtain h tl where hs: "seg = h # tl" using seg by (cases seg) auto
  have hd: "hd seg = h" by (simp add: hs)
  obtain ns cm s where pre: "pitchLoop sub pre ([], None, 0) = (ns, cm, s)"
    by (cases "pitchLoop sub pre ([], None, 0)") auto
  have cm: "cm \<noteq> Some p"
  proof (cases "pre = []")
    case True
    then show ?thesis using pre by simp
  next
    case False
    then have "cm = midi (last pre)"
      using pitchLoop_current[OF False, of sub "[]" None 0] pre by simp
    then show ?thesis using maximal False by simp
  qed
  have hp: "midi h = Some p" and tp: "\<forall>f\<in>set tl. midi f = Some p"
    using same hs by auto
  let ?ns = "case cm of None \<Rightarrow> ns
          | Some q \<Rightarrow> if MIN_NOTE_SECONDS \<le> sub (atTime h) s
              then ns @ [closedNote q s (sub (atTime h) s)]
              else ns"
  have one: "pitchLoop sub (pre @ [h]) ([], None, 0) = (?ns, Some p, atTime h)"
    using cm hp by (simp add: pitchLoop_append pre closedNote_def split: option.splits)
  have all: "pitchLoop sub (pre @ seg) ([], None, 0) = (?ns, Some p, atTime h)"
  proof -
    have "pitchLoop sub (pre @ seg) ([], None, 0)
        = pitchLoop sub tl (pitchLoop sub (pre @ [h]) ([], None, 0))"
      unfolding hs using pitchLoop_append[of sub "pre @ [h]" tl] by simp
    then show ?thesis unfolding one using pitchLoop_same[OF tp] by simp
  qed
  show "buildNotesFromPitchTrack sub (pre @ seg) = buildNotesFromPitchTrack sub (pre @ [hd seg])"
    unfolding buildNotesFromPitchTrack_def all hd one by simp
  show "snd (pitchLoop sub (pre @ seg) ([], None, 0)) = (Some p, atTime (hd seg))"
    unfolding all hd by simp
  show "sorted_wrt (<) (map atTime (pre @ seg)) \<longrightarrow>
           (\<forall>n\<in>set (buildNotesFromPitchTrack sub (pre @ seg)). time n < atTime (hd seg))"
  proof (intro impI ballI)
    fix n assume srt: "sorted_wrt (<) (map atTime (pre @ seg))"
      and n: "n \<in> set (buildNotesFromPitchTrack sub (pre @ seg))"
    have "time ` set (fst (pitchLoop sub (pre @ [h]) ([], None, 0)))
        \<subseteq> {} \<union> atTime ` set (butlast (pre @ [h]))"
      by (rule pitchLoop_times) auto
    then have "time n \<in> atTime ` set pre"
      using n unfolding buildNotesFromPitchTrack_def all one by auto
    then show "time n < atTime (hd seg)"
      using srt by (auto simp: hs sorted_wrt_append)
  qed
  show "midi g \<noteq> Some p \<longrightarrow>
           buildNotesFromPitchTrack sub (pre @ seg @ [g])
             = buildNotesFromPitchTrack sub (pre @ seg)
               @ (if MIN_NOTE_SECONDS \<le> sub (atTime g) (atTime (hd seg))
                  then [closedNote p (atTime (hd seg)) (sub (atTime g) (atTime (hd seg)))]
                  else [])"
  proof
    assume g: "midi g \<noteq> Some p"
    have "pitchLoop sub (pre @ seg @ [g]) ([], None, 0)
        = pitchLoop sub [g] (pitchLoop sub (pre @ seg) ([], None, 0))"
      using pitchLoop_append[of sub "pre @ seg" "[g]"] by simp
    then show "buildNotesFromPitchTrack sub (pre @ seg @ [g])
             = buildNotesFromPitchTrack sub (pre @ seg)
               @ (if MIN_NOTE_SECONDS \<le> sub (atTime g) (atTime (hd seg))
                  then [closedNote p (atTime (hd seg)) (sub (atTime g) (atTime (hd seg)))]
                  else [])"
      using g unfolding buildNotesFromPitchTrack_def all hd by (simp add: closedNote_def)
  qed
qed

text \<open>
  Claim C10. Let the track end with a segment \<open>seg\<close> of frames that all carry the
  pitch \<open>p\<close>, the frame before it (if any) carrying something else. Then the notes
  returned are those returned when the segment is cut down to its first frame, however
  long it lasts; the loop ends with the segment still pending in \<open>currentMidi\<close> and
  \<open>startTime\<close>, which are dropped; with increasing frame times every returned note
  begins before the segment does, so none is its note; and the note of the segment is
  appended exactly when a further frame with another pitch, or silence, follows, and
  the duration computed at that frame is at least \<open>MIN_NOTE_SECONDS\<close>. All this holds
  whatever the subtraction of doubles \<open>sub\<close> returns.
\<close>

theorem final_segment_never_emitted:
  assumes "seg \<noteq> []" and "\<forall>f\<in>set seg. midi f = Some p"
    and "pre = [] \<or> midi (last pre) \<noteq> Some p"
  shows "buildNotesFromPitchTrack sub (pre @ seg) = buildNotesFromPitchTrack sub (pre @ [hd seg])
    \<and> snd (pitchLoop sub (pre @ seg) ([], None, 0)) = (Some p, atTime (hd seg))
    \<and> (sorted_wrt (<) (map atTime (pre @ seg)) \<longrightarrow>
           (\<forall>n\<in>set (buildNotesFromPitchTrack sub (pre @ seg)). time n < atTime (hd seg)))
    \<and> (midi g \<noteq> Some p \<longrightarrow>
           buildNotesFromPitchTrack sub (pre @ seg @ [g])
             = buildNotesFromPitchTrack sub (pre @ seg)
               @ (if MIN_NOTE_SECONDS \<le> sub (atTime g) (atTime (hd seg))
                  then [closedNote p (atTime (hd seg)) (sub (atTime g) (atTime (hd seg)))]
                  else []))"
  using final_segment_parts [OF assms] by blast

text \<open>
  The theorem at a tone of pitch 60 held for two frames, a frame of silence, and a
  tone of pitch 69 held to the end for three frames, the frames an eighth of a second
  apart: one note, of pitch 60 and a quarter of a second; the tone of pitch 69 appears
  only once a frame of silence is added, with three eighths of a second.
\<close>

theorem final_segment_never_emitted_witness:
  "lastTone \<noteq> [] \<and> list_all (\<lambda>f. midi f = Some 69) lastTone
   \<and> (heldTone = [] \<or> midi (last heldTone) \<noteq> Some 69)
   \<and> sorted_wrt (<) (map atTime (heldTone @ lastTone))
   \<and> midi (mkFrame (6 / 8) None) \<noteq> Some 69
   \<and> buildNotesFromPitchTrack exactSub (heldTone @ lastTone) = [closedNote 60 0 (2 / 8)]
   \<and> buildNotesFromPitchTrack exactSub (heldTone @ [hd lastTone]) = [closedNote 60 0 (2 / 8)]
   \<and> snd (pitchLoop exactSub (heldTone @ lastTone) ([], None, 0)) = (Some 69, 3 / 8)
   \<and> buildNotesFromPitchTrack exactSub (heldTone @ lastTone @ [mkFrame (6 / 8) None])
       = [closedNote 60 0 (2 / 8), closedNote 69 (3 / 8) (3 / 8)]"
proof -
  have h: "lastTone \<noteq> []" "\<forall>f\<in>set lastTone. midi f = Some 69"
    "heldTone = [] \<or> midi (last heldTone) \<noteq> Some 69"
    by (simp_all add: lastTone_def heldTone_def mkFrame_def)
  have v: "sorted_wrt (<) (map atTime (heldTone @ lastTone))"
    "midi (mkFrame (6 / 8) None) \<noteq> Some 69"
    "buildNotesFromPitchTrack exactSub (heldTone @ lastTone) = [closedNote 60 0 (2 / 8)]"
    by (simp_all add: lastTone_def heldTone_def mkFrame_def buildNotesFromPitchTrack_def
        closedNote_def MIN_NOTE_SECONDS_def exactSub_def)
  from final_segment_never_emitted [OF h, of exactSub "mkFrame (6 / 8) None"] h v
  show ?thesis
    by (simp add: lastTone_def heldTone_def mkFrame_def closedNote_def MIN_NOTE_SECONDS_def
        exactSub_def)
qed

section \<open>Document assembler: proofs\<close>

lemma marker_nonempty: "marker k \<noteq> []"
  by (simp add: marker_def)

lemma markerAt_append: "markerAt xs k off \<Longrightarrow> markerAt (xs @ ys) k off"
proof -
  assume m: "markerAt xs k off"
  let ?n = "length (marker k)"
  have "length (take ?n (drop off xs)) = ?n" using m by (simp add: markerAt_def)
  then have le: "?n \<le> length xs - off" by simp
  moreover have "0 < ?n" using marker_nonempty[of k] by simp
  ultimately have "off \<le> length xs" by linarith
  then have "take ?n (drop off (xs @ ys)) = take ?n (drop off xs)" using le by simp
  then show ?thesis using m by (simp add: markerAt_def)
qed

lemma markerAt_here: "markerAt (xs @ marker k) k (length xs)"
  by (simp add: markerAt_def)

lemma writeBytes_sel [simp]:
  "chunks (writeBytes bs st) = chunks st @ [bs]"
  "byteLength (writeBytes bs st) = byteLength st + length bs"
  "offsets (writeBytes bs st) = offsets st"
  by (simp_all add: writeBytes_def)

lemma writeAscii_sel [simp]:
  "chunks (writeAscii s st) = chunks st @ [s]"
  "byteLength (writeAscii s st) = byteLength st + length s"
  "offsets (writeAscii s st) = offsets st"
  by (simp_all add: writeAscii_def)

lemma endObject_sel [simp]:
  "chunks (endObject st) = chunks st @ [''endobj'' @ nl]"
  "offsets (endObject st) = offsets st"
  by (simp_all add: endObject_def)

lemma beginObject_sel [simp]:
  "chunks (beginObject k st) = chunks st @ [marker k]"
  "offsets (beginObject k st) = (offsets st)(k \<mapsto> byteLength st)"
  by (simp_all add: beginObject_def marker_def)

lemma wellIndexed_writeBytes: "wellIndexed st \<Longrightarrow> wellIndexed (writeBytes bs st)"
  by (auto simp: wellIndexed_def intro: markerAt_append)

lemma wellIndexed_writeAscii: "wellIndexed st \<Longrightarrow> wellIndexed (writeAscii s st)"
  by (simp add: writeAscii_def wellIndexed_writeBytes)

lemma wellIndexed_endObject: "wellIndexed st \<Longrightarrow> wellIndexed (endObject st)"
  by (simp add: endObject_def wellIndexed_writeAscii)

lemma wellIndexed_beginObject: "wellIndexed st \<Longrightarrow> wellIndexed (beginObject k st)"
proof -
  assume w: "wellIndexed st"
  have b: "byteLength (beginObject k st) = length (concat (chunks (beginObject k st)))"
    using w by (simp add: wellIndexed_def beginObject_def marker_def)
  have "\<And>j off. offsets (beginObject k st) j = Some off \<Longrightarrow>
          markerAt (concat (chunks (beginObject k st))) j off"
  proof -
    fix j off assume o: "offsets (beginObject k st) j = Some off"
    show "markerAt (concat (chunks (beginObject k st))) j off"
    proof (cases "j = k")
      case True
      then have "off = length (concat (chunks st))" using o w by (simp add: wellIndexed_def)
      then show ?thesis using True markerAt_here[of "concat (chunks st)" k] by simp
    next
      case False
      then have "offsets st j = Some off" using o by simp
      then have "markerAt (concat (chunks st)) j off" using w by (simp add: wellIndexed_def)
      then show ?thesis by (simp add: markerAt_append)
    qed
  qed
  then show ?thesis using b by (simp add: wellIndexed_def)
qed

lemmas wellIndexed_steps =
  wellIndexed_writeBytes wellIndexed_writeAscii wellIndexed_endObject wellIndexed_beginObject

lemma wellIndexed_writePage: "wellIndexed st \<Longrightarrow> wellIndexed (writePage i page st)"
  unfolding writePage_def Let_def by (intro wellIndexed_steps)

lemma dom_writePage:
  "dom (offsets (writePage i page st)) = dom (offsets st) \<union> {3 + i * 3, 4 + i * 3, 5 + i * 3}"
  unfolding writePage_def Let_def by (auto simp: pageObjectStart_def)

lemma wellIndexed_writePages: "wellIndexed st \<Longrightarrow> wellIndexed (writePages i ps st)"
  by (induction ps arbitrary: i st) (simp_all add: wellIndexed_writePage)

lemma dom_writePages:
  "dom (offsets (writePages i ps st)) = dom (offsets st) \<union> {3 + i * 3 ..< 3 + (i + length ps) * 3}"
proof (induction ps arbitrary: i st)
  case Nil
  then show ?case by simp
next
  case (Cons p ps)
  have e: "{3 + i * 3, 4 + i * 3, 5 + i * 3} \<union> {3 + (i + 1) * 3 ..< 3 + (i + 1 + length ps) * 3}
      = {3 + i * 3 ..< 3 + (i + length (p # ps)) * 3}"
    by auto
  have "dom (offsets (writePages i (p # ps) st))
      = (dom (offsets st) \<union> {3 + i * 3, 4 + i * 3, 5 + i * 3})
          \<union> {3 + (i + 1) * 3 ..< 3 + (i + 1 + length ps) * 3}"
    by (simp only: writePages.simps Cons dom_writePage)
  then show ?case unfolding Un_assoc e .
qed

lemma wellIndexed_writeBody: "wellIndexed (writeBody ps)"
proof -
  have "wellIndexed \<lparr> chunks = [], byteLength = 0, offsets = Map.empty \<rparr>"
    by (simp add: wellIndexed_def)
  then show ?thesis
    unfolding writeBody_def Let_def by (intro wellIndexed_writePages wellIndexed_steps)
qed

lemma dom_writeBody: "dom (offsets (writeBody ps)) = {1 .. totalObjects ps}"
  unfolding writeBody_def Let_def
  by (auto simp: dom_writePages totalObjects_def)

lemma writeXrefEntries_chunks:
  "concat (chunks (writeXrefEntries i n st))
     = concat (chunks st) @ concat (map (xrefEntry (offsets st)) [i..<i + n])
   \<and> offsets (writeXrefEntries i n st) = offsets st"
proof (induction n arbitrary: i st)
  case 0
  then show ?case by simp
next
  case (Suc n)
  have "[i..<i + Suc n] = i # [i + 1..<i + 1 + n]" by (simp add: upt_conv_Cons)
  then show ?case using Suc[of "i + 1" "writeAscii (xrefEntry (offsets st) i) st"] by simp
qed

lemma makePdf_layout:
  "makePdfBlobFromJpegs ps
     = concat (chunks (writeBody ps))
       @ (''xref'' @ nl @ ''0 '' @ decimal (totalObjects ps + 1) @ nl)
       @ concat (xrefTable ps)
       @ (''trailer'' @ nl @ ''<< /Size '' @ decimal (totalObjects ps + 1) @ '' /Root 1 0 R >>''
          @ nl @ ''startxref'' @ nl @ decimal (byteLength (writeBody ps)) @ nl @ ''%%EOF'')"
  by (simp add: makePdfBlobFromJpegs_def writeXref_def Let_def writeXrefEntries_chunks xrefTable_def)

lemma length_decimal: "0 < d \<Longrightarrow> n < 10 ^ d \<Longrightarrow> length (decimal n) \<le> d"
proof (induction n arbitrary: d rule: decimal.induct)
  case (1 n)
  show ?case
  proof (cases "n < 10")
    case True
    then show ?thesis using "1.prems" by (subst decimal.simps) simp
  next
    case False
    then have "1 < d" using "1.prems" by (cases "d = 1") auto
    moreover have "n div 10 < 10 ^ (d - 1)"
    proof -
      have "n < 10 * 10 ^ (d - 1)" using "1.prems" \<open>1 < d\<close>
        by (metis One_nat_def Suc_pred power_Suc)
      then show ?thesis by (simp add: less_mult_imp_div_less mult.commute)
    qed
    ultimately have "length (decimal (n div 10)) \<le> d - 1"
      using "1.IH"[OF False, of "d - 1"] by simp
    then show ?thesis using False \<open>1 < d\<close> by (subst decimal.simps) simp
  qed
qed

lemma padStart10_length: "length s \<le> 10 \<Longrightarrow> length (padStart10 s) = 10"
  by (simp add: padStart10_def)

lemma markerAt_bound: "markerAt out k off \<Longrightarrow> off < length out"
proof -
  assume "markerAt out k off"
  then have "length (take (length (marker k)) (drop off out)) = length (marker k)"
    by (simp add: markerAt_def)
  then have "length (marker k) \<le> length out - off" by simp
  moreover have "0 < length (marker k)" using marker_nonempty[of k] by simp
  ultimately show ?thesis by linarith
qed

lemma nth_table: "1 \<le> k \<Longrightarrow> k \<le> T \<Longrightarrow> (x # map f [1..<T + 1]) ! k = f k"
proof -
  assume k: "1 \<le> k" "k \<le> T"
  then obtain j where j: "k = Suc j" by (cases k) auto
  have "1 + j < T + 1" using k j by simp
  then have "[1..<T + 1] ! j = 1 + j" by (rule nth_upt)
  moreover have "j < length [1..<T + 1]" using k j by (simp only: length_upt)
  ultimately have "map f [1..<T + 1] ! j = f (1 + j)" by (simp only: nth_map)
  then show ?thesis unfolding j by simp
qed

lemma decimal_small: "n < 10 \<Longrightarrow> decimal n = [char_of (48 + n)]"
  by (subst decimal.simps) simp

lemma decimal_big: "\<not> n < 10 \<Longrightarrow> decimal n = decimal (n div 10) @ [char_of (48 + n mod 10)]"
  by (subst decimal.simps) simp

text \<open>
  Claim C8. For \<open>N\<close> pages the byte stream is the body, the line \<open>xref\<close>, the
  line \<open>0 (2 + 3N + 1)\<close>, the lines of the table and the trailer, whose
  \<open>startxref\<close> is the length of the body. The table has \<open>2 + 3N + 1\<close> lines; line 0
  is the free entry; for every object id \<open>k\<close> from 1 to \<open>2 + 3N\<close>, line \<open>k\<close> is the
  entry of the offset recorded for \<open>k\<close>, padded, and at that offset of the emitted
  stream stands the marker \<open>k 0 obj\<close>. The padded offset has at least ten digits,
  and exactly ten as long as the stream is shorter than \<open>10^10\<close> bytes.
\<close>

theorem xref_table_indexes_objects:
  "length (xrefTable ps) = 2 + 3 * length ps + 1
   \<and> makePdfBlobFromJpegs ps
       = concat (chunks (writeBody ps))
         @ (''xref'' @ nl @ ''0 '' @ decimal (2 + 3 * length ps + 1) @ nl)
         @ concat (xrefTable ps)
         @ (''trailer'' @ nl @ ''<< /Size '' @ decimal (2 + 3 * length ps + 1) @ '' /Root 1 0 R >>''
            @ nl @ ''startxref'' @ nl @ decimal (length (concat (chunks (writeBody ps)))) @ nl
            @ ''%%EOF'')
   \<and> xrefTable ps ! 0 = ''0000000000 65535 f '' @ nl
   \<and> (\<forall>k. 1 \<le> k \<and> k \<le> 2 + 3 * length ps \<longrightarrow>
         (\<exists>off. xrefTable ps ! k = padStart10 (decimal off) @ '' 00000 n '' @ nl
            \<and> markerAt (makePdfBlobFromJpegs ps) k off
            \<and> 10 \<le> length (padStart10 (decimal off))
            \<and> (length (makePdfBlobFromJpegs ps) < 10 ^ 10 \<longrightarrow>
                 length (padStart10 (decimal off)) = 10)))"
proof -
  have t: "totalObjects ps = 2 + 3 * length ps" by (simp add: totalObjects_def)
  have w: "wellIndexed (writeBody ps)" by (rule wellIndexed_writeBody)
  have "length [1..<totalObjects ps + 1] = totalObjects ps"
    by (simp only: length_upt add_diff_cancel_right')
  then have a: "length (xrefTable ps) = 2 + 3 * length ps + 1"
    unfolding xrefTable_def by (simp only: length_Cons length_map t)
  have b: "makePdfBlobFromJpegs ps
       = concat (chunks (writeBody ps))
         @ (''xref'' @ nl @ ''0 '' @ decimal (2 + 3 * length ps + 1) @ nl)
         @ concat (xrefTable ps)
         @ (''trailer'' @ nl @ ''<< /Size '' @ decimal (2 + 3 * length ps + 1) @ '' /Root 1 0 R >>''
            @ nl @ ''startxref'' @ nl @ decimal (length (concat (chunks (writeBody ps)))) @ nl
            @ ''%%EOF'')"
    using makePdf_layout[of ps] w unfolding t by (simp add: wellIndexed_def)
  have c: "xrefTable ps ! 0 = ''0000000000 65535 f '' @ nl"
    by (simp add: xrefTable_def)
  have d: "\<forall>k. 1 \<le> k \<and> k \<le> 2 + 3 * length ps \<longrightarrow>
         (\<exists>off. xrefTable ps ! k = padStart10 (decimal off) @ '' 00000 n '' @ nl
            \<and> markerAt (makePdfBlobFromJpegs ps) k off
            \<and> 10 \<le> length (padStart10 (decimal off))
            \<and> (length (makePdfBlobFromJpegs ps) < 10 ^ 10 \<longrightarrow>
                 length (padStart10 (decimal off)) = 10))"
  proof (intro allI impI)
    fix k assume k: "1 \<le> k \<and> k \<le> 2 + 3 * length ps"
    then have "k \<in> dom (offsets (writeBody ps))" by (simp add: dom_writeBody t)
    then obtain off where off: "offsets (writeBody ps) k = Some off" by auto
    have "xrefTable ps ! k = xrefEntry (offsets (writeBody ps)) k"
      unfolding xrefTable_def using k t by (intro nth_table) simp_all
    then have e: "xrefTable ps ! k = padStart10 (decimal off) @ '' 00000 n '' @ nl"
      using off by (simp add: xrefEntry_def)
    have "markerAt (concat (chunks (writeBody ps))) k off"
      using w off by (simp add: wellIndexed_def)
    then have m: "markerAt (makePdfBlobFromJpegs ps) k off"
      unfolding b by (rule markerAt_append)
    have "length (makePdfBlobFromJpegs ps) < 10 ^ 10 \<longrightarrow> length (padStart10 (decimal off)) = 10"
    proof
      assume "length (makePdfBlobFromJpegs ps) < 10 ^ 10"
      then have "off < 10 ^ 10" using markerAt_bound[OF m] by simp
      then have "length (decimal off) \<le> 10" by (intro length_decimal) simp_all
      then show "length (padStart10 (decimal off)) = 10" by (rule padStart10_length)
    qed
    moreover have "10 \<le> length (padStart10 (decimal off))"
      by (simp add: padStart10_def)
    ultimately show "\<exists>off. xrefTable ps ! k = padStart10 (decimal off) @ '' 00000 n '' @ nl
            \<and> markerAt (makePdfBlobFromJpegs ps) k off
            \<and> 10 \<le> length (padStart10 (decimal off))
            \<and> (length (makePdfBlobFromJpegs ps) < 10 ^ 10 \<longrightarrow>
                 length (padStart10 (decimal off)) = 10)"
      using e m by blast
  qed
  show ?thesis using a b c d by blast
qed

text \<open>
  The theorem at one page of 4 by 8 pixels with one byte of image data: 679 bytes, six
  lines, and object 5, the image, at byte 335.
\<close>

theorem xref_table_indexes_objects_witness:
  "(1::nat) \<le> 5 \<and> (5::nat) \<le> 2 + 3 * length [tinyPage]
   \<and> length (makePdfBlobFromJpegs [tinyPage]) < 10 ^ 10
   \<and> length (xrefTable [tinyPage]) = 6
   \<and> xrefTable [tinyPage] ! 5 = ''0000000335 00000 n '' @ nl
   \<and> markerAt (makePdfBlobFromJpegs [tinyPage]) 5 335
   \<and> (\<exists>off. xrefTable [tinyPage] ! 5 = padStart10 (decimal off) @ '' 00000 n '' @ nl
         \<and> markerAt (makePdfBlobFromJpegs [tinyPage]) 5 off
         \<and> length (padStart10 (decimal off)) = 10)"
proof -
  have l: "length (makePdfBlobFromJpegs [tinyPage]) = 679" by code_simp
  have v: "xrefTable [tinyPage] ! 5 = ''0000000335 00000 n '' @ nl"
    "markerAt (makePdfBlobFromJpegs [tinyPage]) 5 335"
    by code_simp+
  have b: "length (makePdfBlobFromJpegs [tinyPage]) < 10 ^ 10" unfolding l by simp
  have k: "(1::nat) \<le> 5 \<and> (5::nat) \<le> 2 + 3 * length [tinyPage]" by simp
  note T = xref_table_indexes_objects [of "[tinyPage]"]
  from T have n: "length (xrefTable [tinyPage]) = 2 + 3 * length [tinyPage] + 1"
    by (rule conjunct1)
  from T have "\<forall>k. 1 \<le> k \<and> k \<le> 2 + 3 * length [tinyPage] \<longrightarrow>
         (\<exists>off. xrefTable [tinyPage] ! k = padStart10 (decimal off) @ '' 00000 n '' @ nl
            \<and> markerAt (makePdfBlobFromJpegs [tinyPage]) k off
            \<and> 10 \<le> length (padStart10 (decimal off))
            \<and> (length (makePdfBlobFromJpegs [tinyPage]) < 10 ^ 10 \<longrightarrow>
                 length (padStart10 (decimal off)) = 10))"
    by blast
  with k b have e: "\<exists>off. xrefTable [tinyPage] ! 5 = padStart10 (decimal off) @ '' 00000 n '' @ nl
         \<and> markerAt (makePdfBlobFromJpegs [tinyPage]) 5 off
         \<and> length (padStart10 (decimal off)) = 10"
    by blast
  from n have n6: "length (xrefTable [tinyPage]) = 6" by simp
  show ?thesis using k b n6 v e by blast
qed

end
